theory Spec2Isabelle
  imports Main "HOL-Library.Option_ord" "HOL-Library.Char_ord" "HOL-Library.List_Lexorder"
    "HOL-Library.Multiset"
begin

section \<open>Index backup and restore: the data model\<close>

text \<open>
  The notebook \<^verbatim>\<open>azure-search-backup-and-restore.ipynb\<close> copies the schema and the
  documents of a source search index into a target index. The search service and its
  SDK are outside the repository: their replies are parameters of the model
  (\<open>env\<close> below), every call the code makes on them is recorded, and every
  raise of the code is an \<open>error\<close> value.

  A field of the index definition carries the attributes the code reads:
  \<^verbatim>\<open>field.name\<close>, \<^verbatim>\<open>field.hidden\<close>, \<^verbatim>\<open>field.key\<close>, \<^verbatim>\<open>field.sortable\<close>,
  \<^verbatim>\<open>field.filterable\<close>.
\<close>

record field =
  field_name :: string
  hidden :: bool
  key :: bool
  filterable :: bool
  sortable :: bool

record index =
  ix_name :: string
  ix_fields :: "field list"

text \<open>
  A document is a Python dict from field names to values, kept as an association
  list (\<open>map_of\<close> is the subscript \<^verbatim>\<open>doc[name]\<close>, the empty list is the empty dict,
  which is falsy). Values are of any type \<open>'v\<close>; the service orders them, so there
  \<open>'v\<close> is a linear order. A page is the list
  \<^verbatim>\<open>list(page)\<close> of the documents of one page of a response.
\<close>

type_synonym 'v document = "(string \<times> 'v) list"
type_synonym 'v page = "'v document list"

text \<open>
  The keyword arguments of \<^verbatim>\<open>search_client.search\<close>. The filter text
  \<^verbatim>\<open>f"{key_field_name} gt '{last_item[key_field_name]}'"\<close> is kept as its two holes:
  \<open>filter_gt = Some (f, v)\<close> stands for the text \<^verbatim>\<open>f gt 'v'\<close>.
\<close>

record 'v query =
  search_text :: string
  top :: nat
  order_by :: "string option"
  filter_gt :: "(string \<times> 'v) option"
  include_total_count :: bool

text \<open>
  An item of the reply to an upload, with what the service says of one document:
  whether it was written, and the message of the error if it was not. The object that
  \<^verbatim>\<open>item.error\<close> gives, where an item has that attribute, is an \<open>error_object\<close>;
  its attribute \<^verbatim>\<open>.message\<close> may be missing as well.
\<close>

record indexing_result =
  succeeded :: bool
  error_message :: string

datatype error_object = ErrorObject (attr_message: "string option")

datatype error =
    UnboundLocalError string
  | KeyFieldNotFound
  | KeyError string
  | AttributeError string
  | IndexError

text \<open>The objects \<^verbatim>\<open>create_clients\<close> builds: handles, holding what they were built from.\<close>

record search_client =
  sc_endpoint :: string
  sc_index_name :: string
  sc_credential :: string

record index_client =
  ic_endpoint :: string
  ic_credential :: string

definition create_clients :: "string \<Rightarrow> string \<Rightarrow> string \<Rightarrow> search_client \<times> index_client" where
  "create_clients endpoint credential index_name =
     (\<lparr>sc_endpoint = endpoint, sc_index_name = index_name, sc_credential = credential\<rparr>,
      \<lparr>ic_endpoint = endpoint, ic_credential = credential\<rparr>)"

text \<open>The calls that change the target service, in the order they were made.\<close>

datatype 'v target_call =
    CreateOrUpdateIndex index
  | UploadDocuments "'v page"

text \<open>One constructor for each \<^verbatim>\<open>print\<close> of the notebook, with the values it interpolates.\<close>

datatype 'v printed =
    WarnNotRetrievable "string list"
  | WarnNotFilterableOrSortable
  | BackingUp
  | DocumentUploadError string
  | FailedDocuments nat
  | FailedDocumentKeys "'v list"
  | AllUploaded
  | SuccessfullyBackedUp string string
  | SourceDocumentCount nat
  | TargetDocumentCount nat
  | CountsMatch
  | CountsDoNotMatch

text \<open>
  What the services and the SDK answer. \<open>get_index\<close> is the definition of the
  source index, \<open>get_count\<close> the total the source reports to a count query.
  \<open>search_pages\<close> is the list of pages
  \<^verbatim>\<open>search(...).by_page()\<close> iterates over, a function of the query alone (the source
  is not changed while it is read). \<open>upload_documents\<close> is the list
  \<^verbatim>\<open>upload_documents\<close> returns, which may depend on the calls the target has seen.
  \<open>index_of\<close> is \<^verbatim>\<open>result.index_of(item)\<close>, \<open>attr_id\<close> is the attribute
  \<^verbatim>\<open>.id\<close> of a document and \<open>attr_error\<close> the attribute \<^verbatim>\<open>.error\<close> of an
  item of the reply; each is \<open>None\<close> where the object has no such attribute and
  the access raises \<^verbatim>\<open>AttributeError\<close>.
\<close>

record 'v env =
  get_index :: index
  search_pages :: "'v query \<Rightarrow> 'v page list"
  get_count :: nat
  upload_documents :: "'v target_call list \<Rightarrow> 'v page \<Rightarrow> indexing_result list"
  index_of :: "indexing_result list \<Rightarrow> indexing_result \<Rightarrow> nat option"
  attr_id :: "'v document \<Rightarrow> 'v option"
  attr_error :: "indexing_result \<Rightarrow> error_object option"

text \<open>
  The local variables of \<^verbatim>\<open>backup_and_restore_index\<close> that the loop updates, and
  the effects of the run: the calls on the target, the lines printed, the arguments of
  \<^verbatim>\<open>progress_bar.update\<close>, and the queries sent to the source.
\<close>

record 'v state =
  failed_documents :: nat
  failed_keys :: "'v list"
  target :: "'v target_call list"
  stdout :: "'v printed list"
  progress_updates :: "nat list"
  queries :: "'v query list"

definition initial_state :: "'v state" where
  "initial_state =
     \<lparr>failed_documents = 0, failed_keys = [], target = [], stdout = [],
      progress_updates = [], queries = []\<rparr>"

section \<open>The page generators\<close>

text \<open>
  A generator object is its point of suspension with the locals alive there: not
  started, or suspended at the \<^verbatim>\<open>yield\<close> inside \<^verbatim>\<open>for page in response\<close> with
  \<^verbatim>\<open>last_item\<close> and the pages of the response not yet read, or exhausted.
\<close>

datatype 'v gen =
    WithFilterStart string
  | WithFilterAt string "'v document option" "'v page list"
  | WithoutFilterStart
  | WithoutFilterAt "'v page list"
  | Exhausted

datatype 'v signal =
    Yield "'v page" "'v gen"
  | StopIteration
  | Raise error

text \<open>The four calls of \<^verbatim>\<open>search_client.search\<close> in the notebook.\<close>

definition ordered_query :: "string \<Rightarrow> 'v query" where
  "ordered_query key_field_name =
     \<lparr>search_text = ''*'', top = 100000, order_by = Some key_field_name, filter_gt = None,
      include_total_count = False\<rparr>"

definition filtered_query :: "string \<Rightarrow> 'v \<Rightarrow> 'v query" where
  "filtered_query key_field_name v =
     \<lparr>search_text = ''*'', top = 100000, order_by = Some key_field_name,
      filter_gt = Some (key_field_name, v), include_total_count = False\<rparr>"

definition plain_query :: "'v query" where
  "plain_query =
     \<lparr>search_text = ''*'', top = 100000, order_by = None, filter_gt = None,
      include_total_count = False\<rparr>"

definition count_query :: "'v query" where
  "count_query =
     \<lparr>search_text = ''*'', top = 0, order_by = None, filter_gt = None,
      include_total_count = True\<rparr>"

text \<open>
  \<^verbatim>\<open>search_results_with_filter\<close>, from the head of \<^verbatim>\<open>for page in response\<close> to the
  next \<^verbatim>\<open>yield\<close>, \<^verbatim>\<open>break\<close> or raise. \<open>issued\<close> collects the queries sent on the
  way. The loop need not come back, so the function is partial: \<open>None\<close> is
  "runs forever".
\<close>

partial_function (option) with_filter_resume ::
  "('v query \<Rightarrow> 'v page list) \<Rightarrow> string \<Rightarrow> 'v document option \<Rightarrow> 'v page list \<Rightarrow>
   'v query list \<Rightarrow> ('v signal \<times> 'v query list) option"
where
  "with_filter_resume search key_field_name last_item response issued =
     (case response of
        page # rest \<Rightarrow>
          if length page > 0
          then Some (Yield page (WithFilterAt key_field_name (Some (last page)) rest), issued)
          else with_filter_resume search key_field_name None rest issued
      | [] \<Rightarrow>
          (case last_item of
             None \<Rightarrow> Some (StopIteration, issued)
           | Some item \<Rightarrow>
               if item = [] then Some (StopIteration, issued)
               else
                 (case map_of item key_field_name of
                    None \<Rightarrow> Some (Raise (KeyError key_field_name), issued)
                  | Some v \<Rightarrow>
                      let q = filtered_query key_field_name v
                      in with_filter_resume search key_field_name last_item (search q)
                           (issued @ [q]))))"

text \<open>\<^verbatim>\<open>search_results_without_filter\<close>: one query, every page of its response.\<close>

fun without_filter_resume :: "'v page list \<Rightarrow> 'v query list \<Rightarrow> 'v signal \<times> 'v query list" where
  "without_filter_resume [] issued = (StopIteration, issued)"
| "without_filter_resume (page # rest) issued = (Yield page (WithoutFilterAt rest), issued)"

text \<open>\<^verbatim>\<open>next(gen)\<close>: the signal and the queries sent to the source meanwhile.\<close>

definition gen_next ::
  "('v query \<Rightarrow> 'v page list) \<Rightarrow> 'v gen \<Rightarrow> ('v signal \<times> 'v query list) option" where
  "gen_next search g =
     (case g of
        WithFilterStart key_field_name \<Rightarrow>
          (let q = ordered_query key_field_name
           in with_filter_resume search key_field_name None (search q) [q])
      | WithFilterAt key_field_name last_item rest \<Rightarrow>
          with_filter_resume search key_field_name last_item rest []
      | WithoutFilterStart \<Rightarrow>
          (let q = plain_query
           in Some (without_filter_resume (search q) [q]))
      | WithoutFilterAt rest \<Rightarrow> Some (without_filter_resume rest [])
      | Exhausted \<Rightarrow> Some (StopIteration, []))"

text \<open>
  Iterating a generator to its end (\<^verbatim>\<open>for page in gen\<close>): the pages it yields, the
  error it raised if any, and the queries it sent.
\<close>

partial_function (option) drain ::
  "('v query \<Rightarrow> 'v page list) \<Rightarrow> 'v gen \<Rightarrow> 'v page list \<Rightarrow> 'v query list \<Rightarrow>
   ('v page list \<times> error option \<times> 'v query list) option"
where
  "drain search g pages issued =
     (case gen_next search g of
        None \<Rightarrow> None
      | Some (sig, qs) \<Rightarrow>
          (case sig of
             StopIteration \<Rightarrow> Some (pages, None, issued @ qs)
           | Raise e \<Rightarrow> Some (pages, Some e, issued @ qs)
           | Yield page g' \<Rightarrow> drain search g' (pages @ [page]) (issued @ qs)))"

definition search_results_with_filter ::
  "('v query \<Rightarrow> 'v page list) \<Rightarrow> string \<Rightarrow> ('v page list \<times> error option \<times> 'v query list) option"
where
  "search_results_with_filter search key_field_name =
     drain search (WithFilterStart key_field_name) [] []"

definition search_results_without_filter ::
  "('v query \<Rightarrow> 'v page list) \<Rightarrow> ('v page list \<times> error option \<times> 'v query list) option"
where
  "search_results_without_filter search = drain search WithoutFilterStart [] []"

section \<open>The driver\<close>

text \<open>
  \<^verbatim>\<open>total_count\<close>: a query for no document and the total count, and
  \<^verbatim>\<open>response.get_count()\<close>.
\<close>

definition total_count :: "'v env \<Rightarrow> 'v state \<Rightarrow> nat \<times> 'v state" where
  "total_count env s = (get_count env, s\<lparr>queries := queries s @ [count_query]\<rparr>)"

text \<open>
  The loop over the fields of the source index. \<^verbatim>\<open>key_field\<close> is assigned only
  inside the loop: \<open>None\<close> is the unbound local.
\<close>

fun scan_fields :: "field list \<Rightarrow> field list \<Rightarrow> field option \<Rightarrow> field list \<times> field option" where
  "scan_fields [] non_retrievable_fields key_field = (non_retrievable_fields, key_field)"
| "scan_fields (f # fs) non_retrievable_fields key_field =
     scan_fields fs
       (if hidden f then non_retrievable_fields @ [f] else non_retrievable_fields)
       (if key f then Some f else key_field)"

text \<open>\<^verbatim>\<open>not key_field\<close> on a bound field object: an instance of a class is truthy.\<close>

definition field_truthy :: "field \<Rightarrow> bool" where
  "field_truthy f = True"

text \<open>
  The expression \<^verbatim>\<open>page[result.index_of(item)].id\<close>, with the three places
  where it can raise.
\<close>

definition failed_key ::
  "'v env \<Rightarrow> 'v page \<Rightarrow> indexing_result list \<Rightarrow> indexing_result \<Rightarrow> error + 'v" where
  "failed_key env page result item =
     (case index_of env result item of
        None \<Rightarrow> Inl (AttributeError ''index_of'')
      | Some i \<Rightarrow>
          if i < length page then
            (case attr_id env (page ! i) of
               None \<Rightarrow> Inl (AttributeError ''id'')
             | Some k \<Rightarrow> Inr k)
          else Inl IndexError)"

text \<open>
  The expression \<^verbatim>\<open>item.error.message\<close>, with the two places where it can raise.
\<close>

definition upload_error_message :: "'v env \<Rightarrow> indexing_result \<Rightarrow> error + string" where
  "upload_error_message env item =
     (case attr_error env item of
        None \<Rightarrow> Inl (AttributeError ''error'')
      | Some err \<Rightarrow>
          (case attr_message err of
             None \<Rightarrow> Inl (AttributeError ''message'')
           | Some m \<Rightarrow> Inr m))"

text \<open>
  The body of \<^verbatim>\<open>for item in result\<close>; \<open>items\<close> is what is left of \<open>result\<close>.
  The counter is incremented before the key is looked up, the key is appended before
  the message is read, and the message is printed last.
\<close>

fun record_failures ::
  "'v env \<Rightarrow> 'v page \<Rightarrow> indexing_result list \<Rightarrow> indexing_result list \<Rightarrow>
   'v state \<Rightarrow> error option \<times> 'v state"
where
  "record_failures env page result [] s = (None, s)"
| "record_failures env page result (item # items) s =
     (if \<not> succeeded item then
        (let s1 = s\<lparr>failed_documents := failed_documents s + 1\<rparr> in
         case failed_key env page result item of
           Inl e \<Rightarrow> (Some e, s1)
         | Inr k \<Rightarrow>
             (let s2 = s1\<lparr>failed_keys := failed_keys s1 @ [k]\<rparr> in
              case upload_error_message env item of
                Inl e \<Rightarrow> (Some e, s2)
              | Inr m \<Rightarrow>
                  record_failures env page result items
                    (s2\<lparr>stdout := stdout s2 @ [DocumentUploadError m]\<rparr>)))
      else record_failures env page result items s)"

text \<open>The body of \<^verbatim>\<open>for page in all_documents\<close>.\<close>

definition upload_page :: "'v env \<Rightarrow> 'v page \<Rightarrow> 'v state \<Rightarrow> error option \<times> 'v state" where
  "upload_page env page s =
     (let result = upload_documents env (target s) page;
          s1 = s\<lparr>target := target s @ [UploadDocuments page],
                 progress_updates := progress_updates s @ [length result]\<rparr>
      in record_failures env page result result s1)"

partial_function (option) upload_loop ::
  "'v env \<Rightarrow> 'v gen \<Rightarrow> 'v state \<Rightarrow> (error option \<times> 'v state \<times> 'v gen) option"
where
  "upload_loop env g s =
     (case gen_next (search_pages env) g of
        None \<Rightarrow> None
      | Some (sig, qs) \<Rightarrow>
          (let s0 = s\<lparr>queries := queries s @ qs\<rparr> in
           case sig of
             StopIteration \<Rightarrow> Some (None, s0, Exhausted)
           | Raise e \<Rightarrow> Some (Some e, s0, Exhausted)
           | Yield page g' \<Rightarrow>
               (case upload_page env page s0 of
                  (Some e, s1) \<Rightarrow> Some (Some e, s1, g')
                | (None, s1) \<Rightarrow> upload_loop env g' s1)))"

text \<open>
  \<^verbatim>\<open>backup_and_restore_index\<close>. The result is \<open>None\<close> when the run never ends;
  otherwise the value returned or the error raised, with the state at that point.
\<close>

type_synonym 'v returned = "search_client \<times> search_client \<times> 'v gen"

definition backup_and_restore_index ::
  "'v env \<Rightarrow> string \<Rightarrow> string \<Rightarrow> string \<Rightarrow> string \<Rightarrow> string \<Rightarrow> string \<Rightarrow>
   ((error + 'v returned) \<times> 'v state) option"
where
  "backup_and_restore_index env source_endpoint source_key source_index_name
       target_endpoint target_key target_index_name =
     (let (source_search_client, source_index_client) =
            create_clients source_endpoint source_key source_index_name;
          (target_search_client, target_index_client) =
            create_clients target_endpoint target_key target_index_name;
          source_index = get_index env;
          (non_retrievable_fields, key_field) = scan_fields (ix_fields source_index) [] None;
          s = initial_state
      in
      case key_field of
        None \<Rightarrow> Some (Inl (UnboundLocalError ''key_field''), s)
      | Some key_field \<Rightarrow>
          if \<not> field_truthy key_field then Some (Inl KeyFieldNotFound, s)
          else
            (let s = (if length non_retrievable_fields > 0
                      then s\<lparr>stdout := stdout s @
                                [WarnNotRetrievable (map field_name non_retrievable_fields)]\<rparr>
                      else s);
                 source_index = source_index\<lparr>ix_name := target_index_name\<rparr>;
                 s = s\<lparr>target := target s @ [CreateOrUpdateIndex source_index]\<rparr>;
                 (document_count, s) = total_count env s;
                 can_use_filter = (sortable key_field \<and> filterable key_field);
                 s = (if \<not> can_use_filter
                      then s\<lparr>stdout := stdout s @ [WarnNotFilterableOrSortable]\<rparr>
                      else s);
                 all_documents = (if can_use_filter then WithFilterStart (field_name key_field)
                                  else WithoutFilterStart);
                 s = s\<lparr>stdout := stdout s @ [BackingUp]\<rparr>
             in
             case upload_loop env all_documents s of
               None \<Rightarrow> None
             | Some (Some e, s, all_documents) \<Rightarrow> Some (Inl e, s)
             | Some (None, s, all_documents) \<Rightarrow>
                 (let s = (if failed_documents s > 0
                           then s\<lparr>stdout := stdout s @
                                     [FailedDocuments (failed_documents s),
                                      FailedDocumentKeys (failed_keys s)]\<rparr>
                           else s\<lparr>stdout := stdout s @ [AllUploaded]\<rparr>);
                      s = s\<lparr>stdout := stdout s @
                                [SuccessfullyBackedUp source_index_name target_index_name]\<rparr>
                  in Some (Inr (source_search_client, target_search_client, all_documents), s))))"

text \<open>
  \<^verbatim>\<open>verify_counts\<close>, given what \<^verbatim>\<open>get_document_count\<close> answers on each client.
  The function has no \<^verbatim>\<open>return\<close>: its value is Python's \<^verbatim>\<open>None\<close>, here the
  \<open>None\<close> of \<open>bool option\<close>.
\<close>

definition verify_counts :: "nat \<Rightarrow> nat \<Rightarrow> bool option \<times> 'v printed list" where
  "verify_counts source_document_count target_document_count =
     (None,
      [SourceDocumentCount source_document_count,
       TargetDocumentCount target_document_count] @
      (if source_document_count = target_document_count
       then [CountsMatch] else [CountsDoNotMatch]))"

section \<open>The search service\<close>

text \<open>
  Modelled from the spec: the page-based iteration of the external search service,
  which is not code of this repository. A result is cut into pages of \<open>n\<close>
  documents; the first page is always there, so an empty result is one empty page, and
  \<open>n = 0\<close> stands for "not paged".
\<close>

function by_page :: "nat \<Rightarrow> 'a list \<Rightarrow> 'a list list" where
  "by_page n xs =
     (if n = 0 \<or> length xs \<le> n then [xs] else take n xs # by_page n (drop n xs))"
  by pat_completeness auto
termination
  by (relation "measure (\<lambda>(n, xs). length xs)") auto

declare by_page.simps [simp del]

text \<open>
  Modelled from the spec: the query operation of the external search service
  (\<^verbatim>\<open>query(collection_name, filter?, order_by?, page_size, page_token?)\<close>, with "a
  textual filter predicate of the form \<^verbatim>\<open><field> gt '<value>'\<close>, ascending order by a
  named field, and page-based iteration"). The answer is the documents that pass the
  filter, in ascending order of the named field, at most \<open>top\<close> of them, in pages. A
  document without the field (\<open>map_of d f = None\<close>) sorts first and passes no filter.
\<close>

definition service_search ::
  "nat \<Rightarrow> ('v::linorder) document list \<Rightarrow> 'v query \<Rightarrow> 'v page list" where
  "service_search page_size docs q =
     (let matching = (case filter_gt q of
                        None \<Rightarrow> docs
                      | Some (f, v) \<Rightarrow> filter (\<lambda>d. map_of d f > Some v) docs);
          ordered = (case order_by q of
                       None \<Rightarrow> matching
                     | Some f \<Rightarrow> sort_key (\<lambda>d. map_of d f) matching)
      in by_page page_size (take (top q) ordered))"

section \<open>Observations on a run\<close>

text \<open>The pages uploaded, read off the calls the target has seen.\<close>

fun uploaded_pages :: "'v target_call list \<Rightarrow> 'v page list" where
  "uploaded_pages [] = []"
| "uploaded_pages (CreateOrUpdateIndex ix # cs) = uploaded_pages cs"
| "uploaded_pages (UploadDocuments page # cs) = page # uploaded_pages cs"

text \<open>The number the progress bar shows after \<open>n\<close> calls of \<^verbatim>\<open>update\<close>.\<close>

definition progress_counter :: "nat list \<Rightarrow> nat \<Rightarrow> nat" where
  "progress_counter updates n = sum_list (take n updates)"

text \<open>What the loop over the pages adds to the state, whatever way it ends.\<close>

definition loop_effects :: "'v env \<Rightarrow> 'v state \<Rightarrow> error option \<times> 'v state \<times> 'v gen \<Rightarrow> bool" where
  "loop_effects env s r =
     (\<exists>pages msgs qs.
        target (fst (snd r)) = target s @ map UploadDocuments pages \<and>
        stdout (fst (snd r)) = stdout s @ map DocumentUploadError msgs \<and>
        queries (fst (snd r)) = queries s @ qs \<and>
        length (progress_updates (fst (snd r))) = length (progress_updates s) + length pages \<and>
        ((\<forall>h p. length (upload_documents env h p) = length p) \<longrightarrow>
           progress_updates (fst (snd r)) = progress_updates s @ map length pages) \<and>
        (fst r = None \<longrightarrow> snd (snd r) = Exhausted) \<and>
        (\<forall>e. fst r = Some e \<longrightarrow>
           (\<exists>k. e = KeyError k) \<or> e = AttributeError ''index_of'' \<or>
           e = AttributeError ''id'' \<or> e = IndexError \<or>
           e = AttributeError ''error'' \<or> e = AttributeError ''message''))"

text \<open>
  With a key field found: the state in which the loop over the pages is entered, the
  generator it reads, and the state after the prints that follow the loop.
\<close>

definition loop_entry :: "'v env \<Rightarrow> string \<Rightarrow> 'v state" where
  "loop_entry env tn =
     (let fs = ix_fields (get_index env); kf = last (filter key fs); nr = filter hidden fs
      in \<lparr>failed_documents = 0, failed_keys = [],
          target = [CreateOrUpdateIndex ((get_index env)\<lparr>ix_name := tn\<rparr>)],
          stdout = (if nr \<noteq> [] then [WarnNotRetrievable (map field_name nr)] else []) @
                   (if sortable kf \<and> filterable kf then [] else [WarnNotFilterableOrSortable]) @
                   [BackingUp],
          progress_updates = [], queries = [count_query]\<rparr>)"

definition loop_source :: "'v env \<Rightarrow> 'v gen" where
  "loop_source env =
     (let kf = last (filter key (ix_fields (get_index env)))
      in if sortable kf \<and> filterable kf then WithFilterStart (field_name kf)
         else WithoutFilterStart)"

definition summary :: "'v state \<Rightarrow> string \<Rightarrow> string \<Rightarrow> 'v state" where
  "summary s sn tn =
     s\<lparr>stdout := stdout s @
          (if failed_documents s > 0
           then [FailedDocuments (failed_documents s), FailedDocumentKeys (failed_keys s)]
           else [AllUploaded]) @
          [SuccessfullyBackedUp sn tn]\<rparr>"

text \<open>A generator of the range-filtered mode, reading by the field \<open>k\<close>.\<close>

fun reads_by :: "'v gen \<Rightarrow> string \<Rightarrow> bool" where
  "reads_by (WithFilterStart k') k = (k' = k)"
| "reads_by (WithFilterAt k' li rest) k = (k' = k)"
| "reads_by g k = False"

section \<open>Example services\<close>

text \<open>
  Small concrete indexes, collections and services, on which the theorems below are
  run. In the first of them the objects of a reply offer every attribute the loop
  reads: \<open>position\<close> is an \<^verbatim>\<open>index_of\<close> on lists (the index of the first equal
  item), the \<^verbatim>\<open>.id\<close> of a document is its field \<^verbatim>\<open>id\<close>, and the
  \<^verbatim>\<open>.error\<close> of an item holds its message.
\<close>

fun position :: "'a list \<Rightarrow> 'a \<Rightarrow> nat option" where
  "position [] y = None"
| "position (x # xs) y = (if x = y then Some 0 else map_option Suc (position xs y))"

definition message_object :: "indexing_result \<Rightarrow> error_object option" where
  "message_object item = Some (ErrorObject (Some (error_message item)))"

definition accept_all :: "string target_call list \<Rightarrow> string page \<Rightarrow> indexing_result list" where
  "accept_all h page = map (\<lambda>d. \<lparr>succeeded = True, error_message = []\<rparr>) page"

definition reject_k5 :: "string target_call list \<Rightarrow> string page \<Rightarrow> indexing_result list" where
  "reject_k5 h page =
     map (\<lambda>d. if map_of d ''id'' = Some ''k5''
              then \<lparr>succeeded = False, error_message = ''conflict''\<rparr>
              else \<lparr>succeeded = True, error_message = []\<rparr>) page"

definition no_key_index :: index where
  "no_key_index = \<lparr>ix_name = ''src'', ix_fields =
     [\<lparr>field_name = ''title'', hidden = False, key = False, filterable = True, sortable = True\<rparr>]\<rparr>"

definition no_key_env :: "string env" where
  "no_key_env = \<lparr>get_index = no_key_index,
       search_pages = service_search 2 [[(''title'', ''a'')]], get_count = 1,
       upload_documents = accept_all, index_of = position,
       attr_id = (\<lambda>d. map_of d ''id''), attr_error = message_object\<rparr>"

definition two_key_index :: index where
  "two_key_index = \<lparr>ix_name = ''src'', ix_fields =
     [\<lparr>field_name = ''id'', hidden = False, key = True, filterable = True, sortable = True\<rparr>,
      \<lparr>field_name = ''note'', hidden = True, key = False, filterable = False, sortable = False\<rparr>,
      \<lparr>field_name = ''code'', hidden = False, key = True, filterable = True, sortable = True\<rparr>]\<rparr>"

definition two_key_docs :: "string document list" where
  "two_key_docs = [[(''id'', ''1''), (''code'', ''b'')], [(''id'', ''2''), (''code'', ''a'')]]"

definition two_key_env :: "string env" where
  "two_key_env = \<lparr>get_index = two_key_index, search_pages = service_search 1 two_key_docs,
       get_count = 2, upload_documents = accept_all, index_of = position,
       attr_id = (\<lambda>d. map_of d ''id''), attr_error = message_object\<rparr>"

definition unsortable_index :: index where
  "unsortable_index = \<lparr>ix_name = ''src'', ix_fields =
     [\<lparr>field_name = ''id'', hidden = False, key = True, filterable = True, sortable = False\<rparr>]\<rparr>"

definition unsortable_env :: "string env" where
  "unsortable_env = \<lparr>get_index = unsortable_index,
       search_pages = service_search 1 [[(''id'', ''k1'')], [(''id'', ''k2'')]],
       get_count = 2, upload_documents = accept_all, index_of = position,
       attr_id = (\<lambda>d. map_of d ''id''), attr_error = message_object\<rparr>"

definition keyed_index :: index where
  "keyed_index = \<lparr>ix_name = ''src'', ix_fields =
     [\<lparr>field_name = ''id'', hidden = False, key = True, filterable = True, sortable = True\<rparr>,
      \<lparr>field_name = ''title'', hidden = False, key = False, filterable = False, sortable = False\<rparr>]\<rparr>"

definition conflict_docs :: "string document list" where
  "conflict_docs =
     [[(''id'', ''k6''), (''title'', ''c'')], [(''id'', ''k4''), (''title'', ''a'')],
      [(''id'', ''k7''), (''title'', ''d'')], [(''id'', ''k5''), (''title'', ''b'')]]"

definition conflict_env :: "string env" where
  "conflict_env = \<lparr>get_index = keyed_index, search_pages = service_search 2 conflict_docs,
       get_count = 4, upload_documents = reject_k5, index_of = position,
       attr_id = (\<lambda>d. map_of d ''id''), attr_error = message_object\<rparr>"

definition clean_env :: "string env" where
  "clean_env = conflict_env\<lparr>upload_documents := accept_all\<rparr>"

text \<open>
  Modelled from the spec: the objects in the replies of the external service, whose
  classes are not code of this repository. The reply of the bulk upsert is a
  per-document result list of \<^verbatim>\<open>{key, succeeded, error_message?}\<close>, and a document
  is a mapping from field name to value. As Python values these are a \<^verbatim>\<open>list\<close>,
  which has no method \<^verbatim>\<open>index_of\<close>, a \<^verbatim>\<open>dict\<close>, which has no attribute
  \<^verbatim>\<open>id\<close>, and a result object without an attribute \<^verbatim>\<open>error\<close>.
  \<open>sdk_conflict_env\<close> is the service of \<open>conflict_env\<close> with these objects.
\<close>

definition list_index_of :: "indexing_result list \<Rightarrow> indexing_result \<Rightarrow> nat option" where
  "list_index_of result item = None"

definition dict_attr_id :: "'v document \<Rightarrow> 'v option" where
  "dict_attr_id doc = None"

definition result_attr_error :: "indexing_result \<Rightarrow> error_object option" where
  "result_attr_error item = None"

definition sdk_conflict_env :: "string env" where
  "sdk_conflict_env =
     conflict_env\<lparr>index_of := list_index_of, attr_id := dict_attr_id,
                  attr_error := result_attr_error\<rparr>"

section \<open>Unfolding the loops\<close>

text \<open>
  One equation for each way through the body of a loop, so that a proof takes one step
  of the loop at a time.
\<close>

lemma resume_Cons:
  "with_filter_resume search k li (page # rest) issued =
     (if page \<noteq> [] then Some (Yield page (WithFilterAt k (Some (last page)) rest), issued)
      else with_filter_resume search k None rest issued)"
  by (subst with_filter_resume.simps) simp

lemma resume_Nil_None:
  "with_filter_resume search k None [] issued = Some (StopIteration, issued)"
  by (subst with_filter_resume.simps) simp

lemma resume_Nil_Some:
  "with_filter_resume search k (Some item) [] issued =
     (if item = [] then Some (StopIteration, issued)
      else case map_of item k of
             None \<Rightarrow> Some (Raise (KeyError k), issued)
           | Some v \<Rightarrow>
               with_filter_resume search k (Some item)
                 (search (filtered_query k v)) (issued @ [filtered_query k v]))"
  by (subst with_filter_resume.simps) (simp add: Let_def split: option.split)

lemmas resume_simps = resume_Cons resume_Nil_None resume_Nil_Some

lemma gen_next_simps:
  "gen_next search (WithFilterStart k) =
     with_filter_resume search k None (search (ordered_query k)) [ordered_query k]"
  "gen_next search (WithFilterAt k li rest) = with_filter_resume search k li rest []"
  "gen_next search WithoutFilterStart =
     Some (without_filter_resume (search plain_query) [plain_query])"
  "gen_next search (WithoutFilterAt rest) = Some (without_filter_resume rest [])"
  "gen_next search Exhausted = Some (StopIteration, [])"
  by (simp_all add: gen_next_def Let_def)

lemma drain_Stop:
  "gen_next search g = Some (StopIteration, qs) \<Longrightarrow>
   drain search g pages issued = Some (pages, None, issued @ qs)"
  by (subst drain.simps) simp

lemma drain_Raise:
  "gen_next search g = Some (Raise e, qs) \<Longrightarrow>
   drain search g pages issued = Some (pages, Some e, issued @ qs)"
  by (subst drain.simps) simp

lemma drain_Yield:
  "gen_next search g = Some (Yield page g', qs) \<Longrightarrow>
   drain search g pages issued = drain search g' (pages @ [page]) (issued @ qs)"
  by (subst drain.simps) simp

lemma upload_loop_Stop:
  "gen_next (search_pages env) g = Some (StopIteration, qs) \<Longrightarrow>
   upload_loop env g s = Some (None, s\<lparr>queries := queries s @ qs\<rparr>, Exhausted)"
  by (subst upload_loop.simps) simp

lemma upload_loop_Raise:
  "gen_next (search_pages env) g = Some (Raise e, qs) \<Longrightarrow>
   upload_loop env g s = Some (Some e, s\<lparr>queries := queries s @ qs\<rparr>, Exhausted)"
  by (subst upload_loop.simps) simp

lemma upload_loop_Yield:
  "gen_next (search_pages env) g = Some (Yield page g', qs) \<Longrightarrow>
   upload_loop env g s =
     (case upload_page env page (s\<lparr>queries := queries s @ qs\<rparr>) of
        (Some e, s1) \<Rightarrow> Some (Some e, s1, g')
      | (None, s1) \<Rightarrow> upload_loop env g' s1)"
  by (subst upload_loop.simps) (simp add: Let_def)

section \<open>The scan of the schema\<close>

text \<open>
  The loop over the fields in closed form: the hidden fields in order, and the last
  key-marked field.
\<close>

lemma scan_fields_eq:
  "scan_fields fs nr kf =
     (nr @ filter hidden fs,
      if filter key fs = [] then kf else Some (last (filter key fs)))"
  by (induction fs arbitrary: nr kf) auto

lemma run_no_key:
  "filter key (ix_fields (get_index env)) = [] \<Longrightarrow>
   backup_and_restore_index env se sk sn te tk tn =
     Some (Inl (UnboundLocalError ''key_field''), initial_state)"
  by (simp add: backup_and_restore_index_def scan_fields_eq create_clients_def)

section \<open>What a page and the loop add to the state\<close>

text \<open>
  The loop over the results of one upload, the upload of one page, and the loop over
  the pages only ever append to the state.
\<close>

lemma resume_raises:
  assumes "with_filter_resume search k li resp issued = Some r"
  shows "\<forall>e. fst r = Raise e \<longrightarrow> e = KeyError k"
  by (rule with_filter_resume.raw_induct
        [where P = "\<lambda>search k li resp issued r. \<forall>e. fst r = Raise e \<longrightarrow> e = KeyError k",
         OF _ assms])
     (auto split: list.splits option.splits if_splits simp: Let_def)

lemma gen_next_raises:
  assumes "gen_next search g = Some (Raise e, qs)"
  shows "\<exists>k. e = KeyError k"
proof (cases g)
  case (WithFilterStart k)
  with assms resume_raises[of search k None "search (ordered_query k)" "[ordered_query k]" "(Raise e, qs)"]
  show ?thesis by (simp add: gen_next_simps)
next
  case (WithFilterAt k li rest)
  with assms resume_raises[of search k li rest "[]" "(Raise e, qs)"]
  show ?thesis by (simp add: gen_next_simps)
next
  case WithoutFilterStart
  with assms show ?thesis
    by (cases "search plain_query") (simp_all add: gen_next_simps)
next
  case (WithoutFilterAt rest)
  with assms show ?thesis by (cases rest) (simp_all add: gen_next_simps)
next
  case Exhausted
  with assms show ?thesis by (simp add: gen_next_simps)
qed

lemma record_failures_error:
  "record_failures env page result items s = (Some e, s') \<Longrightarrow>
   e = AttributeError ''index_of'' \<or> e = AttributeError ''id'' \<or> e = IndexError \<or>
   e = AttributeError ''error'' \<or> e = AttributeError ''message''"
  by (induction items arbitrary: s)
     (auto split: if_splits option.splits sum.splits
        simp: Let_def failed_key_def upload_error_message_def)

lemma record_failures_effects:
  "record_failures env page result items s = (r, s') \<Longrightarrow>
   target s' = target s \<and> queries s' = queries s \<and> progress_updates s' = progress_updates s
   \<and> (\<exists>msgs. stdout s' = stdout s @ map DocumentUploadError msgs)"
proof (induction items arbitrary: s)
  case Nil
  then show ?case by simp
next
  case (Cons item items)
  show ?case
  proof (cases "succeeded item")
    case True
    with Cons show ?thesis by simp
  next
    case False
    show ?thesis
    proof (cases "failed_key env page result item")
      case (Inl e)
      with False Cons.prems show ?thesis by (auto simp: Let_def)
    next
      case key: (Inr k)
      show ?thesis
      proof (cases "upload_error_message env item")
        case (Inl e)
        with False key Cons.prems show ?thesis by (auto simp: Let_def)
      next
        case (Inr m)
        let ?s3 = "s\<lparr>failed_documents := failed_documents s + 1,
                      failed_keys := failed_keys s @ [k],
                      stdout := stdout s @ [DocumentUploadError m]\<rparr>"
        from False key Inr Cons.prems
        have "record_failures env page result items ?s3 = (r, s')" by (simp add: Let_def)
        from Cons.IH[OF this] obtain msgs where
          "target s' = target s" "queries s' = queries s"
          "progress_updates s' = progress_updates s"
          "stdout s' = stdout s @ map DocumentUploadError (m # msgs)"
          by auto
        then show ?thesis by blast
      qed
    qed
  qed
qed

lemma record_failures_no_index_of:
  assumes "\<forall>result item. index_of env result item = None"
    and "\<exists>item\<in>set items. \<not> succeeded item"
  shows "record_failures env page result items s =
           (Some (AttributeError ''index_of''), s\<lparr>failed_documents := failed_documents s + 1\<rparr>)"
  using assms by (induction items arbitrary: s) (auto simp: Let_def failed_key_def)

lemma failed_key_no_id:
  assumes "index_of env result item = Some i" "i < length page"
    and "attr_id env (page ! i) = None"
  shows "failed_key env page result item = Inl (AttributeError ''id'')"
  using assms by (simp add: failed_key_def)

lemma record_failures_no_error_attribute:
  assumes "\<not> succeeded item" "failed_key env page result item = Inr k"
    and "attr_error env item = None"
  shows "record_failures env page result (item # items) s =
           (Some (AttributeError ''error''),
            s\<lparr>failed_documents := failed_documents s + 1,
              failed_keys := failed_keys s @ [k]\<rparr>)"
  using assms by (simp add: Let_def upload_error_message_def)

lemma upload_page_effects:
  assumes "upload_page env page s = (r, s')"
  shows "target s' = target s @ [UploadDocuments page]"
    and "queries s' = queries s"
    and "progress_updates s' =
           progress_updates s @ [length (upload_documents env (target s) page)]"
    and "\<exists>msgs. stdout s' = stdout s @ map DocumentUploadError msgs"
proof -
  let ?result = "upload_documents env (target s) page"
  let ?s1 = "s\<lparr>target := target s @ [UploadDocuments page],
                progress_updates := progress_updates s @ [length ?result]\<rparr>"
  from assms have "record_failures env page ?result ?result ?s1 = (r, s')"
    by (simp add: upload_page_def Let_def)
  from record_failures_effects[OF this]
  show "target s' = target s @ [UploadDocuments page]"
    and "queries s' = queries s"
    and "progress_updates s' = progress_updates s @ [length ?result]"
    and "\<exists>msgs. stdout s' = stdout s @ map DocumentUploadError msgs"
    by simp_all
qed

lemma uploaded_pages_append [simp]:
  "uploaded_pages (xs @ ys) = uploaded_pages xs @ uploaded_pages ys"
  by (induction xs rule: uploaded_pages.induct) auto

lemma uploaded_pages_map [simp]: "uploaded_pages (map UploadDocuments pages) = pages"
  by (induction pages) auto

lemma upload_loop_effects:
  assumes "upload_loop env g s = Some r"
  shows "loop_effects env s r"
proof (rule upload_loop.raw_induct[where P = "\<lambda>env g s r. loop_effects env s r", OF _ assms],
    goal_cases)
  case (1 loop env g s r)
  note IH = 1(1) and body = 1(2)
  from body obtain sig qs where gn: "gen_next (search_pages env) g = Some (sig, qs)"
    by (auto split: option.splits)
  let ?s0 = "s\<lparr>queries := queries s @ qs\<rparr>"
  show ?case
  proof (cases sig)
    case StopIteration
    with body gn have "r = (None, ?s0, Exhausted)" by (simp add: Let_def)
    then show ?thesis
      unfolding loop_effects_def
      by (intro exI[of _ "[]::'a page list"] exI[of _ "[]::string list"] exI[of _ qs]) simp
  next
    case (Raise e)
    with body gn have "r = (Some e, ?s0, Exhausted)" by (simp add: Let_def)
    moreover from gn Raise have "\<exists>k. e = KeyError k" by (auto dest: gen_next_raises)
    ultimately show ?thesis
      unfolding loop_effects_def
      by (intro exI[of _ "[]::'a page list"] exI[of _ "[]::string list"] exI[of _ qs]) auto
  next
    case (Yield page g')
    obtain e1 s1 where up: "upload_page env page ?s0 = (e1, s1)"
      by (cases "upload_page env page ?s0")
    from upload_page_effects[OF up] obtain msgs1 where
      s1: "target s1 = target s @ [UploadDocuments page]"
          "queries s1 = queries s @ qs"
          "stdout s1 = stdout s @ map DocumentUploadError msgs1"
          "progress_updates s1 =
             progress_updates s @ [length (upload_documents env (target s) page)]"
      by auto
    show ?thesis
    proof (cases e1)
      case (Some e)
      with body gn Yield up have r: "r = (Some e, s1, g')" by (simp add: Let_def)
      from up Some have "e = AttributeError ''index_of'' \<or> e = AttributeError ''id'' \<or>
          e = IndexError \<or> e = AttributeError ''error'' \<or> e = AttributeError ''message''"
        by (auto simp: upload_page_def Let_def dest: record_failures_error)
      with s1 r show ?thesis
        unfolding loop_effects_def
        by (intro exI[of _ "[page]"] exI[of _ msgs1] exI[of _ qs]) auto
    next
      case None
      with body gn Yield up have "loop env g' s1 = Some r" by (simp add: Let_def)
      from IH[OF this] have "loop_effects env s1 r" .
      then show ?thesis
        using s1 unfolding loop_effects_def
        apply (elim exE conjE)
        subgoal for pages msgs qs'
          apply (rule exI[of _ "page # pages"])
          apply (rule exI[of _ "msgs1 @ msgs"])
          apply (rule exI[of _ "qs @ qs'"])
          apply simp
          done
        done
    qed
  qed
qed

section \<open>The queries a run sends\<close>

text \<open>
  In the range-filtered mode every query is the ordered query or a filtered query on
  the same field.
\<close>

lemma resume_queries:
  assumes "with_filter_resume search k li resp issued = Some r"
  shows "\<exists>more. snd r = issued @ more \<and> (\<forall>q\<in>set more. \<exists>v. q = filtered_query k v) \<and>
           (\<forall>p g'. fst r = Yield p g' \<longrightarrow> (\<exists>li' rest. g' = WithFilterAt k li' rest))"
proof (rule with_filter_resume.raw_induct
    [where P = "\<lambda>search k li resp issued r.
       \<exists>more. snd r = issued @ more \<and> (\<forall>q\<in>set more. \<exists>v. q = filtered_query k v) \<and>
           (\<forall>p g'. fst r = Yield p g' \<longrightarrow> (\<exists>li' rest. g' = WithFilterAt k li' rest))",
      OF _ assms], goal_cases)
  case (1 resume search k li resp issued r)
  note IH = 1(1) and body = 1(2)
  show ?case
  proof (cases resp)
    case (Cons page rest)
    show ?thesis
    proof (cases "page = []")
      case True
      with body Cons have "resume search k None rest issued = Some r" by simp
      from IH[OF this] show ?thesis .
    next
      case False
      with body Cons show ?thesis by auto
    qed
  next
    case Nil
    show ?thesis
    proof (cases "\<exists>item v. li = Some item \<and> item \<noteq> [] \<and> map_of item k = Some v")
      case False
      with body Nil show ?thesis by (auto split: option.splits if_splits)
    next
      case True
      then obtain item v where li: "li = Some item" "item \<noteq> []" "map_of item k = Some v"
        by blast
      with body Nil have
        "resume search k li (search (filtered_query k v)) (issued @ [filtered_query k v]) = Some r"
        by (simp add: Let_def)
      from IH[OF this] obtain more where
        "snd r = (issued @ [filtered_query k v]) @ more"
        "\<forall>q\<in>set more. \<exists>v. q = filtered_query k v"
        "\<forall>p g'. fst r = Yield p g' \<longrightarrow> (\<exists>li' rest. g' = WithFilterAt k li' rest)"
        by blast
      then show ?thesis
        by (intro exI[of _ "filtered_query k v # more"]) auto
    qed
  qed
qed

lemma gen_next_queries:
  assumes "gen_next search g = Some (sig, qs)" and "reads_by g k"
  shows "(\<forall>q\<in>set qs. q = ordered_query k \<or> (\<exists>v. q = filtered_query k v)) \<and>
         (\<forall>p g'. sig = Yield p g' \<longrightarrow> reads_by g' k) \<and>
         (g = WithFilterStart k \<longrightarrow> qs \<noteq> [] \<and> hd qs = ordered_query k)"
proof (cases g)
  case (WithFilterStart k')
  with assms have "with_filter_resume search k None (search (ordered_query k)) [ordered_query k]
      = Some (sig, qs)" by (simp add: gen_next_simps)
  from resume_queries[OF this] WithFilterStart show ?thesis by auto
next
  case (WithFilterAt k' li rest)
  with assms have "with_filter_resume search k li rest [] = Some (sig, qs)"
    by (simp add: gen_next_simps)
  from resume_queries[OF this] WithFilterAt show ?thesis by auto
qed (use assms in auto)

lemma drain_queries:
  assumes "drain search g pages issued = Some r"
  shows "\<forall>k. reads_by g k \<longrightarrow>
           (\<exists>qs. snd (snd r) = issued @ qs \<and>
                 (\<forall>q\<in>set qs. q = ordered_query k \<or> (\<exists>v. q = filtered_query k v)))"
proof (rule drain.raw_induct
    [where P = "\<lambda>search g pages issued r. \<forall>k. reads_by g k \<longrightarrow>
           (\<exists>qs. snd (snd r) = issued @ qs \<and>
                 (\<forall>q\<in>set qs. q = ordered_query k \<or> (\<exists>v. q = filtered_query k v)))",
      OF _ assms], goal_cases)
  case (1 drn search g pages issued r)
  note IH = 1(1) and body = 1(2)
  from body obtain sig qs where gn: "gen_next search g = Some (sig, qs)"
    by (auto split: option.splits)
  show ?case
  proof (intro allI impI)
    fix k assume rb: "reads_by g k"
    from gen_next_queries[OF gn rb] have
      qs: "\<forall>q\<in>set qs. q = ordered_query k \<or> (\<exists>v. q = filtered_query k v)"
      and nxt: "\<forall>p g'. sig = Yield p g' \<longrightarrow> reads_by g' k"
      by blast+
    show "\<exists>qs. snd (snd r) = issued @ qs \<and>
                 (\<forall>q\<in>set qs. q = ordered_query k \<or> (\<exists>v. q = filtered_query k v))"
    proof (cases sig)
      case StopIteration
      with body gn have "r = (pages, None, issued @ qs)" by simp
      with qs show ?thesis by (intro exI[of _ qs]) simp
    next
      case (Raise e)
      with body gn have "r = (pages, Some e, issued @ qs)" by simp
      with qs show ?thesis by (intro exI[of _ qs]) simp
    next
      case (Yield page g')
      with body gn have "drn search g' (pages @ [page]) (issued @ qs) = Some r" by simp
      from IH[OF this, rule_format, of k] nxt Yield obtain qs' where
        "snd (snd r) = (issued @ qs) @ qs'"
        "\<forall>q\<in>set qs'. q = ordered_query k \<or> (\<exists>v. q = filtered_query k v)"
        by blast
      with qs show ?thesis by (intro exI[of _ "qs @ qs'"]) auto
    qed
  qed
qed

lemma upload_loop_queries:
  assumes "upload_loop env g s = Some r"
  shows "\<forall>k. reads_by g k \<longrightarrow>
           (\<exists>qs. queries (fst (snd r)) = queries s @ qs \<and>
                 (\<forall>q\<in>set qs. q = ordered_query k \<or> (\<exists>v. q = filtered_query k v)) \<and>
                 (g = WithFilterStart k \<longrightarrow> qs \<noteq> [] \<and> hd qs = ordered_query k))"
proof (rule upload_loop.raw_induct
    [where P = "\<lambda>env g s r. \<forall>k. reads_by g k \<longrightarrow>
           (\<exists>qs. queries (fst (snd r)) = queries s @ qs \<and>
                 (\<forall>q\<in>set qs. q = ordered_query k \<or> (\<exists>v. q = filtered_query k v)) \<and>
                 (g = WithFilterStart k \<longrightarrow> qs \<noteq> [] \<and> hd qs = ordered_query k))",
      OF _ assms], goal_cases)
  case (1 loop env g s r)
  note IH = 1(1) and body = 1(2)
  from body obtain sig qs where gn: "gen_next (search_pages env) g = Some (sig, qs)"
    by (auto split: option.splits)
  let ?s0 = "s\<lparr>queries := queries s @ qs\<rparr>"
  show ?case
  proof (intro allI impI)
    fix k assume rb: "reads_by g k"
    from gen_next_queries[OF gn rb] have
      qs: "\<forall>q\<in>set qs. q = ordered_query k \<or> (\<exists>v. q = filtered_query k v)"
      and nxt: "\<forall>p g'. sig = Yield p g' \<longrightarrow> reads_by g' k"
      and fst: "g = WithFilterStart k \<longrightarrow> qs \<noteq> [] \<and> hd qs = ordered_query k"
      by blast+
    show "\<exists>qs. queries (fst (snd r)) = queries s @ qs \<and>
                 (\<forall>q\<in>set qs. q = ordered_query k \<or> (\<exists>v. q = filtered_query k v)) \<and>
                 (g = WithFilterStart k \<longrightarrow> qs \<noteq> [] \<and> hd qs = ordered_query k)"
    proof (cases sig)
      case StopIteration
      with body gn have "r = (None, ?s0, Exhausted)" by (simp add: Let_def)
      with qs fst show ?thesis by (intro exI[of _ qs]) simp
    next
      case (Raise e)
      with body gn have "r = (Some e, ?s0, Exhausted)" by (simp add: Let_def)
      with qs fst show ?thesis by (intro exI[of _ qs]) simp
    next
      case (Yield page g')
      obtain e1 s1 where up: "upload_page env page ?s0 = (e1, s1)"
        by (cases "upload_page env page ?s0")
      from upload_page_effects(2)[OF up] have s1: "queries s1 = queries s @ qs" by simp
      show ?thesis
      proof (cases e1)
        case (Some e)
        with body gn Yield up have "r = (Some e, s1, g')" by (simp add: Let_def)
        with qs fst s1 show ?thesis by (intro exI[of _ qs]) simp
      next
        case None
        with body gn Yield up have "loop env g' s1 = Some r" by (simp add: Let_def)
        from IH[OF this, rule_format, of k] nxt Yield obtain qs' where
          "queries (fst (snd r)) = queries s1 @ qs'"
          "\<forall>q\<in>set qs'. q = ordered_query k \<or> (\<exists>v. q = filtered_query k v)"
          by blast
        with qs fst s1 show ?thesis by (intro exI[of _ "qs @ qs'"]) auto
      qed
    qed
  qed
qed

section \<open>The unfiltered mode\<close>

text \<open>
  The generator without filter cannot run on: it reads the pages of one response.
\<close>

lemma drain_without_filter:
  "drain search (WithoutFilterAt rest) pages issued = Some (pages @ rest, None, issued)"
proof (induction rest arbitrary: pages)
  case Nil
  show ?case by (simp add: drain_Stop gen_next_simps)
next
  case (Cons page rest)
  have "drain search (WithoutFilterAt (page # rest)) pages issued =
        drain search (WithoutFilterAt rest) (pages @ [page]) (issued @ [])"
    by (rule drain_Yield) (simp add: gen_next_simps)
  with Cons show ?case by simp
qed

lemma search_results_without_filter_eq:
  "search_results_without_filter search = Some (search plain_query, None, [plain_query])"
proof (cases "search plain_query")
  case Nil
  then show ?thesis
    by (simp add: search_results_without_filter_def drain_Stop gen_next_simps)
next
  case (Cons page rest)
  then have "drain search WithoutFilterStart [] [] =
        drain search (WithoutFilterAt rest) ([] @ [page]) ([] @ [plain_query])"
    by (intro drain_Yield) (simp add: gen_next_simps)
  with Cons show ?thesis
    by (simp add: search_results_without_filter_def drain_without_filter)
qed

lemma upload_loop_without_filter:
  "\<exists>e s' g'. upload_loop env (WithoutFilterAt rest) s = Some (e, s', g') \<and>
       queries s' = queries s \<and>
       (e = None \<longrightarrow> target s' = target s @ map UploadDocuments rest)"
proof (induction rest arbitrary: s)
  case Nil
  show ?case by (simp add: upload_loop_Stop gen_next_simps)
next
  case (Cons page rest)
  have gn: "gen_next (search_pages env) (WithoutFilterAt (page # rest)) =
      Some (Yield page (WithoutFilterAt rest), [])"
    by (simp add: gen_next_simps)
  obtain e1 s1 where up: "upload_page env page (s\<lparr>queries := queries s @ []\<rparr>) = (e1, s1)"
    by (cases "upload_page env page (s\<lparr>queries := queries s @ []\<rparr>)")
  from upload_page_effects[OF up] have s1:
    "target s1 = target s @ [UploadDocuments page]" "queries s1 = queries s" by simp_all
  show ?case
  proof (cases e1)
    case (Some e)
    with up s1 show ?thesis by (simp add: upload_loop_Yield[OF gn])
  next
    case None
    from Cons.IH[of s1] obtain e s' g' where
      "upload_loop env (WithoutFilterAt rest) s1 = Some (e, s', g')" "queries s' = queries s1"
      "e = None \<longrightarrow> target s' = target s1 @ map UploadDocuments rest"
      by blast
    with None up s1 show ?thesis by (simp add: upload_loop_Yield[OF gn])
  qed
qed

lemma upload_loop_without_filter_start:
  "\<exists>e s' g'. upload_loop env WithoutFilterStart s = Some (e, s', g') \<and>
       queries s' = queries s @ [plain_query] \<and>
       (e = None \<longrightarrow>
          target s' = target s @ map UploadDocuments (search_pages env plain_query))"
proof (cases "search_pages env plain_query")
  case Nil
  then show ?thesis by (simp add: upload_loop_Stop gen_next_simps)
next
  case (Cons page rest)
  then have gn: "gen_next (search_pages env) WithoutFilterStart =
      Some (Yield page (WithoutFilterAt rest), [plain_query])"
    by (simp add: gen_next_simps)
  let ?s0 = "s\<lparr>queries := queries s @ [plain_query]\<rparr>"
  obtain e1 s1 where up: "upload_page env page ?s0 = (e1, s1)"
    by (cases "upload_page env page ?s0")
  from upload_page_effects[OF up] have s1:
    "target s1 = target s @ [UploadDocuments page]" "queries s1 = queries s @ [plain_query]"
    by simp_all
  show ?thesis
  proof (cases e1)
    case (Some e)
    with up s1 show ?thesis by (simp add: upload_loop_Yield[OF gn])
  next
    case None
    from upload_loop_without_filter[of env rest s1] obtain e s' g' where
      "upload_loop env (WithoutFilterAt rest) s1 = Some (e, s', g')" "queries s' = queries s1"
      "e = None \<longrightarrow> target s' = target s1 @ map UploadDocuments rest"
      by blast
    with None up s1 Cons show ?thesis by (simp add: upload_loop_Yield[OF gn])
  qed
qed

section \<open>The run as a whole\<close>

text \<open>
  With a key field in the schema, the run is the loop over the pages between a fixed
  entry state and the closing prints.
\<close>

lemma run_with_key:
  assumes "filter key (ix_fields (get_index env)) \<noteq> []"
  shows "backup_and_restore_index env se sk sn te tk tn =
     (case upload_loop env (loop_source env) (loop_entry env tn) of
        None \<Rightarrow> None
      | Some (None, s, g) \<Rightarrow>
          Some (Inr (fst (create_clients se sk sn), fst (create_clients te tk tn), g),
                summary s sn tn)
      | Some (Some e, s, g) \<Rightarrow> Some (Inl e, s))"
proof -
  let ?fs = "ix_fields (get_index env)"
  have scan: "scan_fields ?fs [] None = (filter hidden ?fs, Some (last (filter key ?fs)))"
    using assms by (simp add: scan_fields_eq)
  show ?thesis
    unfolding backup_and_restore_index_def create_clients_def Let_def scan
      loop_entry_def loop_source_def summary_def initial_state_def field_truthy_def
      total_count_def
    by (simp cong: option.case_cong split: option.split prod.split)
qed

lemma run_finished:
  assumes keys: "filter key (ix_fields (get_index env)) \<noteq> []"
    and run: "backup_and_restore_index env se sk sn te tk tn = Some (r, s)"
  shows "\<exists>e s' g'.
           upload_loop env (loop_source env) (loop_entry env tn) = Some (e, s', g') \<and>
           (case e of
              None \<Rightarrow>
                r = Inr (fst (create_clients se sk sn), fst (create_clients te tk tn), g') \<and>
                s = summary s' sn tn
            | Some x \<Rightarrow> r = Inl x \<and> s = s')"
proof (cases "upload_loop env (loop_source env) (loop_entry env tn)")
  case None
  with run show ?thesis unfolding run_with_key[OF keys] by simp
next
  case (Some x)
  obtain e s' g' where x: "x = (e, s', g')" by (cases x)
  with Some run show ?thesis
    unfolding run_with_key[OF keys] by (cases e) auto
qed

lemma summary_fields [simp]:
  "target (summary s sn tn) = target s"
  "queries (summary s sn tn) = queries s"
  "progress_updates (summary s sn tn) = progress_updates s"
  "failed_keys (summary s sn tn) = failed_keys s"
  "failed_documents (summary s sn tn) = failed_documents s"
  by (simp_all add: summary_def)

lemma summary_stdout:
  "stdout (summary s sn tn) =
     stdout s @ (if failed_documents s > 0
                 then [FailedDocuments (failed_documents s), FailedDocumentKeys (failed_keys s)]
                 else [AllUploaded]) @ [SuccessfullyBackedUp sn tn]"
  by (simp add: summary_def)

lemma loop_entry_fields [simp]:
  "target (loop_entry env tn) = [CreateOrUpdateIndex ((get_index env)\<lparr>ix_name := tn\<rparr>)]"
  "queries (loop_entry env tn) = [count_query]"
  "progress_updates (loop_entry env tn) = []"
  "failed_keys (loop_entry env tn) = []"
  "failed_documents (loop_entry env tn) = 0"
  by (simp_all add: loop_entry_def Let_def)

lemma loop_entry_warning:
  "WarnNotFilterableOrSortable \<in> set (stdout (loop_entry env tn)) \<longleftrightarrow>
   \<not> (sortable (last (filter key (ix_fields (get_index env)))) \<and>
      filterable (last (filter key (ix_fields (get_index env)))))"
  by (auto simp: loop_entry_def Let_def)

lemma run_stdout:
  assumes keys: "filter key (ix_fields (get_index env)) \<noteq> []"
    and run: "backup_and_restore_index env se sk sn te tk tn = Some (r, s)"
  shows "WarnNotFilterableOrSortable \<in> set (stdout s) \<longleftrightarrow>
         \<not> (sortable (last (filter key (ix_fields (get_index env)))) \<and>
            filterable (last (filter key (ix_fields (get_index env)))))"
proof -
  from run_finished[OF keys run] obtain e s' g' where
    ul: "upload_loop env (loop_source env) (loop_entry env tn) = Some (e, s', g')"
    and s: "s = s' \<or> s = summary s' sn tn"
    by (auto split: option.splits)
  from upload_loop_effects[OF ul] obtain msgs where
    "stdout s' = stdout (loop_entry env tn) @ map DocumentUploadError msgs"
    by (auto simp: loop_effects_def)
  with s have "WarnNotFilterableOrSortable \<in> set (stdout s) \<longleftrightarrow>
      WarnNotFilterableOrSortable \<in> set (stdout (loop_entry env tn))"
    by (auto simp: summary_stdout split: if_splits)
  then show ?thesis by (simp add: loop_entry_warning)
qed

lemma run_queries:
  assumes keys: "filter key (ix_fields (get_index env)) \<noteq> []"
    and run: "backup_and_restore_index env se sk sn te tk tn = Some (r, s)"
  defines "kf \<equiv> last (filter key (ix_fields (get_index env)))"
  shows "if sortable kf \<and> filterable kf
         then \<exists>qs. queries s = count_query # ordered_query (field_name kf) # qs \<and>
                   (\<forall>q\<in>set qs. q = ordered_query (field_name kf) \<or>
                              (\<exists>v. q = filtered_query (field_name kf) v))
         else queries s = [count_query, plain_query]"
proof -
  from run_finished[OF keys run] obtain e s' g' where
    ul: "upload_loop env (loop_source env) (loop_entry env tn) = Some (e, s', g')"
    and s: "queries s = queries s'"
    by (auto split: option.splits)
  show ?thesis
  proof (cases "sortable kf \<and> filterable kf")
    case True
    then have src: "loop_source env = WithFilterStart (field_name kf)"
      by (simp add: loop_source_def kf_def Let_def)
    from upload_loop_queries[OF ul, rule_format, of "field_name kf"] src
    obtain qs where qs: "queries s' = count_query # qs" "qs \<noteq> []"
      "hd qs = ordered_query (field_name kf)"
      "\<forall>q\<in>set qs. q = ordered_query (field_name kf) \<or> (\<exists>v. q = filtered_query (field_name kf) v)"
      by auto
    then have "queries s' = count_query # ordered_query (field_name kf) # tl qs"
      "\<forall>q\<in>set (tl qs). q = ordered_query (field_name kf) \<or>
                       (\<exists>v. q = filtered_query (field_name kf) v)"
      by (cases qs; simp)+
    with s show ?thesis unfolding if_P[OF True] by (intro exI[of _ "tl qs"]) simp
  next
    case False
    then have src: "loop_source env = WithoutFilterStart"
      by (auto simp: loop_source_def kf_def Let_def)
    from upload_loop_without_filter_start[of env "loop_entry env tn"] ul src
    have "queries s' = [count_query, plain_query]" by auto
    with s show ?thesis unfolding if_not_P[OF False] by simp
  qed
qed

lemma run_errors:
  assumes keys: "filter key (ix_fields (get_index env)) \<noteq> []"
    and run: "backup_and_restore_index env se sk sn te tk tn = Some (Inl e, s)"
  shows "(\<exists>k. e = KeyError k) \<or> e = AttributeError ''index_of'' \<or>
         e = AttributeError ''id'' \<or> e = IndexError \<or>
         e = AttributeError ''error'' \<or> e = AttributeError ''message''"
proof -
  from run_finished[OF keys run] obtain s' g' where
    ul: "upload_loop env (loop_source env) (loop_entry env tn) = Some (Some e, s', g')"
    by (auto split: option.splits)
  from upload_loop_effects[OF ul] show ?thesis by (auto simp: loop_effects_def)
qed

lemma progress_counter_mono: "m \<le> n \<Longrightarrow> progress_counter ups m \<le> progress_counter ups n"
proof -
  assume "m \<le> n"
  then obtain d where n: "n = m + d" by (auto simp: le_iff_add)
  have "take (m + d) ups = take m ups @ take d (drop m ups)" by (simp add: take_add)
  then show ?thesis by (simp add: progress_counter_def n)
qed

lemma progress_counter_Suc:
  "n < length ups \<Longrightarrow> progress_counter ups (Suc n) = progress_counter ups n + ups ! n"
  by (simp add: progress_counter_def take_Suc_conv_app_nth)

lemma run_progress:
  assumes contract: "\<forall>h p. length (upload_documents env h p) = length p"
    and run: "backup_and_restore_index env se sk sn te tk tn = Some (r, s)"
  shows "progress_updates s = map length (uploaded_pages (target s))"
proof (cases "filter key (ix_fields (get_index env)) = []")
  case True
  from run_no_key[OF this] run show ?thesis by (auto simp: initial_state_def)
next
  case False
  from run_finished[OF False run] obtain e s' g' where
    ul: "upload_loop env (loop_source env) (loop_entry env tn) = Some (e, s', g')"
    and s: "progress_updates s = progress_updates s'" "target s = target s'"
    by (auto split: option.splits)
  from upload_loop_effects[OF ul] contract obtain pages where
    "target s' = target (loop_entry env tn) @ map UploadDocuments pages"
    "progress_updates s' = progress_updates (loop_entry env tn) @ map length pages"
    by (auto simp: loop_effects_def)
  with s show ?thesis by simp
qed

section \<open>The pages of a response\<close>

text \<open>
  What the paging of the service keeps: the documents, in order, in pages that are
  empty only when the result is.
\<close>

lemma by_page_Nil: "by_page n [] = [[]]"
  by (simp add: by_page.simps)

lemma by_page_not_Nil: "by_page n xs \<noteq> []"
  by (subst by_page.simps) simp

lemma concat_by_page: "concat (by_page n xs) = xs"
proof (induction n xs rule: by_page.induct)
  case (1 n xs)
  show ?case
  proof (cases "n = 0 \<or> length xs \<le> n")
    case True
    then show ?thesis by (subst by_page.simps) simp
  next
    case False
    with 1 show ?thesis by (subst by_page.simps) simp
  qed
qed

lemma by_page_no_empty_page: "xs \<noteq> [] \<Longrightarrow> [] \<notin> set (by_page n xs)"
proof (induction n xs rule: by_page.induct)
  case (1 n xs)
  show ?case
  proof (cases "n = 0 \<or> length xs \<le> n")
    case True
    with 1(2) show ?thesis by (subst by_page.simps) simp
  next
    case False
    then have "drop n xs \<noteq> []" "take n xs \<noteq> []" using 1(2) by auto
    with False 1(1) show ?thesis by (subst by_page.simps) auto
  qed
qed

lemma last_last_by_page: "last (last (by_page n xs)) = last xs"
proof (induction n xs rule: by_page.induct)
  case (1 n xs)
  show ?case
  proof (cases "n = 0 \<or> length xs \<le> n")
    case True
    then show ?thesis by (subst by_page.simps) simp
  next
    case False
    with 1 show ?thesis by (subst by_page.simps) (simp add: by_page_not_Nil)
  qed
qed

section \<open>Reading a response to its end\<close>

text \<open>
  Yielding the pages of a response one by one moves the cursor to the last document of
  the response.
\<close>

lemma drain_pending:
  "[] \<notin> set pending \<Longrightarrow>
   drain search (WithFilterAt k li pending) pages issued =
   drain search
     (WithFilterAt k (if pending = [] then li else Some (last (last pending))) [])
     (pages @ pending) issued"
proof (induction pending arbitrary: li pages)
  case Nil
  show ?case by simp
next
  case (Cons p rest)
  then have p: "p \<noteq> []" and rest: "[] \<notin> set rest" by auto
  have "gen_next search (WithFilterAt k li (p # rest)) =
      Some (Yield p (WithFilterAt k (Some (last p)) rest), [])"
    using p by (simp add: gen_next_simps resume_Cons)
  from drain_Yield[OF this]
  have "drain search (WithFilterAt k li (p # rest)) pages issued =
      drain search (WithFilterAt k (Some (last p)) rest) (pages @ [p]) issued"
    by simp
  also have "\<dots> = drain search
      (WithFilterAt k (if rest = [] then Some (last p) else Some (last (last rest))) [])
      ((pages @ [p]) @ rest) issued"
    by (rule Cons.IH[OF rest])
  finally show ?case by simp
qed

lemma drain_refetch_empty:
  assumes "d \<noteq> []" "map_of d k = Some v" "search (filtered_query k v) = [[]]"
  shows "drain search (WithFilterAt k (Some d) []) pages issued =
           Some (pages, None, issued @ [filtered_query k v])"
proof -
  have "gen_next search (WithFilterAt k (Some d) []) = Some (StopIteration, [filtered_query k v])"
    using assms by (simp add: gen_next_simps resume_simps)
  from drain_Stop[OF this] show ?thesis .
qed

lemma drain_refetch_pages:
  assumes "d \<noteq> []" "map_of d k = Some v"
    and "search (filtered_query k v) = resp" "resp \<noteq> []" "[] \<notin> set resp"
  shows "drain search (WithFilterAt k (Some d) []) pages issued =
           drain search (WithFilterAt k (Some (last (last resp))) []) (pages @ resp)
             (issued @ [filtered_query k v])"
proof -
  from assms obtain p rest where resp: "resp = p # rest" "p \<noteq> []" "[] \<notin> set rest"
    by (cases resp) auto
  have "gen_next search (WithFilterAt k (Some d) []) =
      Some (Yield p (WithFilterAt k (Some (last p)) rest), [filtered_query k v])"
    using assms resp by (simp add: gen_next_simps resume_simps)
  from drain_Yield[OF this]
  have "drain search (WithFilterAt k (Some d) []) pages issued =
      drain search (WithFilterAt k (Some (last p)) rest) (pages @ [p])
        (issued @ [filtered_query k v])" .
  also have "\<dots> = drain search
      (WithFilterAt k (if rest = [] then Some (last p) else Some (last (last rest))) [])
      ((pages @ [p]) @ rest) (issued @ [filtered_query k v])"
    by (rule drain_pending[OF resp(3)])
  finally show ?thesis using resp by simp
qed

lemma drain_start_empty:
  assumes "search (ordered_query k) = [[]]"
  shows "drain search (WithFilterStart k) pages issued = Some (pages, None, issued @ [ordered_query k])"
proof -
  have "gen_next search (WithFilterStart k) = Some (StopIteration, [ordered_query k])"
    using assms by (simp add: gen_next_simps resume_simps)
  from drain_Stop[OF this] show ?thesis .
qed

lemma drain_start_pages:
  assumes "search (ordered_query k) = resp" "resp \<noteq> []" "[] \<notin> set resp"
  shows "drain search (WithFilterStart k) pages issued =
           drain search (WithFilterAt k (Some (last (last resp))) []) (pages @ resp)
             (issued @ [ordered_query k])"
proof -
  from assms obtain p rest where resp: "resp = p # rest" "p \<noteq> []" "[] \<notin> set rest"
    by (cases resp) auto
  have "gen_next search (WithFilterStart k) =
      Some (Yield p (WithFilterAt k (Some (last p)) rest), [ordered_query k])"
    using assms resp by (simp add: gen_next_simps resume_simps)
  from drain_Yield[OF this]
  have "drain search (WithFilterStart k) pages issued =
      drain search (WithFilterAt k (Some (last p)) rest) (pages @ [p])
        (issued @ [ordered_query k])" .
  also have "\<dots> = drain search
      (WithFilterAt k (if rest = [] then Some (last p) else Some (last (last rest))) [])
      ((pages @ [p]) @ rest) (issued @ [ordered_query k])"
    by (rule drain_pending[OF resp(3)])
  finally show ?thesis using resp by simp
qed

section \<open>Sorted lists with distinct keys\<close>

text \<open>
  In a list sorted by distinct keys, the documents after a position are those with a
  larger key than the document at it.
\<close>

lemma filter_greater_nth:
  fixes f :: "'a \<Rightarrow> 'b::linorder"
  assumes "sorted_wrt (<) (map f xs)" "i < length xs"
  shows "filter (\<lambda>x. f x > f (xs ! i)) xs = drop (Suc i) xs"
  using assms
proof (induction xs arbitrary: i)
  case Nil
  then show ?case by simp
next
  case (Cons x xs)
  then have lt: "\<forall>y\<in>set xs. f x < f y" and sw: "sorted_wrt (<) (map f xs)" by auto
  show ?case
  proof (cases i)
    case 0
    with lt show ?thesis by simp
  next
    case (Suc j)
    with Cons.prems have j: "j < length xs" by simp
    then have "f x < f (xs ! j)" using lt by simp
    with Suc Cons.IH[OF sw j] show ?thesis by (simp add: not_less_iff_gr_or_eq)
  qed
qed

lemma rest_after_take:
  fixes f :: "'a \<Rightarrow> 'b::linorder"
  assumes dist: "distinct (map f xs)" and n: "0 < n" and ne: "xs \<noteq> []"
  shows "sort_key f (filter (\<lambda>x. f x > f (last (take n (sort_key f xs)))) xs) =
         drop n (sort_key f xs)"
proof -
  let ?T = "sort_key f xs"
  let ?i = "min n (length ?T) - 1"
  have neT: "?T \<noteq> []" using ne by (metis length_sort length_0_conv)
  have i: "?i < length ?T" using n neT by (cases ?T) auto
  have "distinct (map f ?T)"
    using dist by (simp add: distinct_map)
  then have strict: "sorted_wrt (<) (map f ?T)"
    by (simp add: strict_sorted_iff)
  have "take n ?T \<noteq> []" using n neT by (cases ?T) auto
  moreover have "?i < n" using n by simp
  ultimately have last: "last (take n ?T) = ?T ! ?i"
    by (simp add: last_conv_nth min.commute)
  have "sort_key f (filter (\<lambda>x. f x > f (?T ! ?i)) xs) = filter (\<lambda>x. f x > f (?T ! ?i)) ?T"
    by (simp add: filter_sort)
  also have "\<dots> = drop (Suc ?i) ?T" by (rule filter_greater_nth[OF strict i])
  also have "\<dots> = drop n ?T"
  proof (cases "n \<le> length ?T")
    case True
    with n show ?thesis by (simp add: min_def)
  next
    case False
    with neT show ?thesis by (simp add: min_def)
  qed
  finally show ?thesis by (simp add: last)
qed

section \<open>The range-filtered loop on the service\<close>

text \<open>
  The loop from a cursor, by induction on the number of documents beyond it.
\<close>

lemma service_ordered:
  "service_search ps docs (ordered_query k) =
     by_page ps (take 100000 (sort_key (\<lambda>d. map_of d k) docs))"
  by (simp add: service_search_def ordered_query_def)

lemma service_filtered:
  "service_search ps docs (filtered_query k v) =
     by_page ps (take 100000
       (sort_key (\<lambda>d. map_of d k) (filter (\<lambda>d. map_of d k > Some v) docs)))"
  by (simp add: service_search_def filtered_query_def)

lemma cursor_loop:
  fixes docs :: "('v::linorder) document list"
  assumes "map_of d k = Some v"
  shows "\<exists>pages' qs'.
     drain (service_search ps docs) (WithFilterAt k (Some d) []) pages issued =
       Some (pages @ pages', None, issued @ qs') \<and>
     [] \<notin> set pages' \<and> qs' \<noteq> [] \<and>
     service_search ps docs (last qs') = [[]] \<and>
     (\<forall>q\<in>set (butlast qs'). [] \<notin> set (service_search ps docs q)) \<and>
     (distinct (map (\<lambda>d. map_of d k) docs) \<longrightarrow>
        concat pages' =
          sort_key (\<lambda>d. map_of d k) (filter (\<lambda>x. map_of x k > Some v) docs))"
  using assms
proof (induction "length (filter (\<lambda>x. map_of x k > Some v) docs)"
    arbitrary: v d pages issued rule: less_induct)
  case less
  let ?key = "\<lambda>d. map_of d k"
  let ?svc = "service_search ps docs"
  let ?q = "filtered_query k v :: 'v query"
  let ?xs = "filter (\<lambda>x. ?key x > Some v) docs"
  let ?G = "sort_key ?key ?xs"
  let ?R = "take 100000 ?G"
  have d: "d \<noteq> []" using less.prems by auto
  have svc: "?svc ?q = by_page ps ?R" by (rule service_filtered)
  show ?case
  proof (cases "?xs = []")
    case True
    then have resp: "?svc ?q = [[]]" by (simp add: svc by_page_Nil)
    from drain_refetch_empty[where search = "?svc", OF d less.prems resp]
    have "drain ?svc (WithFilterAt k (Some d) []) pages issued =
        Some (pages @ [], None, issued @ [?q])" by simp
    moreover have "concat ([] :: 'v page list) = ?G" using True by simp
    ultimately show ?thesis using resp
      by (intro exI[of _ "[]"] exI[of _ "[?q]"]) simp
  next
    case False
    then have G: "?G \<noteq> []" by (metis length_sort length_0_conv)
    then have R: "?R \<noteq> []" by (cases ?G) auto
    let ?d' = "last ?R"
    have "?d' \<in> set ?R" using R by simp
    then have "?d' \<in> set ?G" by (rule in_set_takeD)
    then have d'xs: "?d' \<in> set ?xs" by simp
    then have "?key ?d' > Some v" by simp
    then obtain v' where v': "?key ?d' = Some v'" "v < v'"
      by (cases "?key ?d'") auto
    have "Some v < Some v'" using v'(2) by simp
    then have "\<And>x. Some v' < ?key x \<Longrightarrow> Some v < ?key x" by (rule less_trans)
    then have sub: "filter (\<lambda>x. ?key x > Some v') docs = filter (\<lambda>x. ?key x > Some v') ?xs"
      by (auto intro!: filter_cong)
    have "length (filter (\<lambda>x. ?key x > Some v') ?xs) < length ?xs"
      by (rule length_filter_less[OF d'xs]) (simp add: v')
    then have smaller: "length (filter (\<lambda>x. ?key x > Some v') docs) < length ?xs"
      by (simp only: sub)
    have resp: "?svc ?q = by_page ps ?R" "by_page ps ?R \<noteq> []" "[] \<notin> set (by_page ps ?R)"
      using R by (simp_all add: svc by_page_not_Nil by_page_no_empty_page)
    from drain_refetch_pages[where search = "?svc", OF d less.prems resp]
    have step: "drain ?svc (WithFilterAt k (Some d) []) pages issued =
        drain ?svc (WithFilterAt k (Some ?d') []) (pages @ by_page ps ?R) (issued @ [?q])"
      by (simp add: last_last_by_page)
    from less.hyps[OF smaller v'(1), of "pages @ by_page ps ?R" "issued @ [?q]"]
    obtain pages'' qs'' where IH:
      "drain ?svc (WithFilterAt k (Some ?d') []) (pages @ by_page ps ?R) (issued @ [?q]) =
         Some ((pages @ by_page ps ?R) @ pages'', None, (issued @ [?q]) @ qs'')"
      "[] \<notin> set pages''" "qs'' \<noteq> []" "?svc (last qs'') = [[]]"
      "\<forall>q\<in>set (butlast qs''). [] \<notin> set (?svc q)"
      "distinct (map ?key docs) \<longrightarrow>
         concat pages'' = sort_key ?key (filter (\<lambda>x. ?key x > Some v') docs)"
      by blast
    have concat: "concat (by_page ps ?R @ pages'') = ?G" if dist: "distinct (map ?key docs)"
    proof -
      have "distinct (map ?key ?xs)" using dist by (rule distinct_map_filter)
      from rest_after_take[OF this _ False, of 100000]
      have "sort_key ?key (filter (\<lambda>x. ?key x > ?key ?d') ?xs) = drop 100000 ?G" by simp
      then have "sort_key ?key (filter (\<lambda>x. ?key x > Some v') docs) = drop 100000 ?G"
        by (simp only: sub v')
      with IH(6) dist show ?thesis by (simp add: concat_by_page)
    qed
    show ?thesis
    proof (intro exI[of _ "by_page ps ?R @ pages''"] exI[of _ "?q # qs''"] conjI)
      show "drain ?svc (WithFilterAt k (Some d) []) pages issued =
          Some (pages @ by_page ps ?R @ pages'', None, issued @ ?q # qs'')"
        using step IH(1) by simp
      show "[] \<notin> set (by_page ps ?R @ pages'')" using resp(3) IH(2) by simp
      show "?q # qs'' \<noteq> []" by simp
      show "?svc (last (?q # qs'')) = [[]]" using IH(3,4) by simp
      show "\<forall>q\<in>set (butlast (?q # qs'')). [] \<notin> set (?svc q)"
        using IH(3,5) resp(1,3) by simp
      show "distinct (map ?key docs) \<longrightarrow> concat (by_page ps ?R @ pages'') = ?G"
        using concat by blast
    qed
  qed
qed

lemma with_filter_on_service:
  fixes docs :: "('v::linorder) document list"
  assumes has_key: "\<forall>d\<in>set docs. map_of d k \<noteq> None"
  shows "\<exists>pages qs.
     search_results_with_filter (service_search ps docs) k = Some (pages, None, qs) \<and>
     [] \<notin> set pages \<and> qs \<noteq> [] \<and>
     service_search ps docs (last qs) = [[]] \<and>
     (\<forall>q\<in>set (butlast qs). [] \<notin> set (service_search ps docs q)) \<and>
     (distinct (map (\<lambda>d. map_of d k) docs) \<longrightarrow>
        concat pages = sort_key (\<lambda>d. map_of d k) docs)"
proof -
  let ?key = "\<lambda>d. map_of d k"
  let ?svc = "service_search ps docs"
  let ?q = "ordered_query k :: 'v query"
  let ?T = "sort_key ?key docs"
  let ?S = "take 100000 ?T"
  have svc: "?svc ?q = by_page ps ?S" by (rule service_ordered)
  show ?thesis
  proof (cases "docs = []")
    case True
    have resp: "?svc ?q = [[]]" unfolding svc using True by (simp add: by_page_Nil)
    from drain_start_empty[where search = "?svc", OF resp, of "[]" "[]"]
    have run: "search_results_with_filter ?svc k = Some ([], None, [?q])"
      by (simp add: search_results_with_filter_def)
    have "concat ([] :: 'v page list) = ?T" using True by simp
    then show ?thesis
      using run resp by (intro exI[of _ "[]"] exI[of _ "[?q]"]) simp
  next
    case False
    then have T: "?T \<noteq> []" by (metis length_sort length_0_conv)
    then have S: "?S \<noteq> []" by (cases ?T) auto
    let ?d = "last ?S"
    have "?d \<in> set ?S" using S by simp
    then have "?d \<in> set ?T" by (rule in_set_takeD)
    then have "?d \<in> set docs" by simp
    with has_key obtain v where v: "?key ?d = Some v" by auto
    have resp: "?svc ?q = by_page ps ?S" "by_page ps ?S \<noteq> []" "[] \<notin> set (by_page ps ?S)"
      using S by (simp_all add: svc by_page_not_Nil by_page_no_empty_page)
    from drain_start_pages[where search = "?svc", OF resp, of "[]" "[]"]
    have step: "search_results_with_filter ?svc k =
        drain ?svc (WithFilterAt k (Some ?d) []) (by_page ps ?S) [?q]"
      by (simp add: search_results_with_filter_def last_last_by_page)
    from cursor_loop[OF v, of ps docs "by_page ps ?S" "[?q]"]
    obtain pages' qs' where L:
      "drain ?svc (WithFilterAt k (Some ?d) []) (by_page ps ?S) [?q] =
         Some (by_page ps ?S @ pages', None, [?q] @ qs')"
      "[] \<notin> set pages'" "qs' \<noteq> []" "?svc (last qs') = [[]]"
      "\<forall>q\<in>set (butlast qs'). [] \<notin> set (?svc q)"
      "distinct (map ?key docs) \<longrightarrow>
         concat pages' = sort_key ?key (filter (\<lambda>x. ?key x > Some v) docs)"
      by blast
    have concat: "concat (by_page ps ?S @ pages') = ?T" if dist: "distinct (map ?key docs)"
    proof -
      from rest_after_take[OF dist _ False, of 100000]
      have "sort_key ?key (filter (\<lambda>x. ?key x > Some v) docs) = drop 100000 ?T"
        by (simp add: v)
      with L(6) dist show ?thesis by (simp add: concat_by_page)
    qed
    show ?thesis
    proof (intro exI[of _ "by_page ps ?S @ pages'"] exI[of _ "?q # qs'"] conjI)
      show "search_results_with_filter ?svc k = Some (by_page ps ?S @ pages', None, ?q # qs')"
        using step L(1) by simp
      show "[] \<notin> set (by_page ps ?S @ pages')" using resp(3) L(2) by simp
      show "?q # qs' \<noteq> []" by simp
      show "?svc (last (?q # qs')) = [[]]" using L(3,4) by simp
      show "\<forall>q\<in>set (butlast (?q # qs')). [] \<notin> set (?svc q)"
        using L(3,5) resp(1,3) by simp
      show "distinct (map ?key docs) \<longrightarrow> concat (by_page ps ?S @ pages') = ?T"
        using concat by blast
    qed
  qed
qed

lemma with_filter_on_service_ends:
  fixes docs :: "('v::linorder) document list"
  shows "\<exists>r. search_results_with_filter (service_search ps docs) k = Some r"
proof (cases "\<forall>d\<in>set docs. map_of d k \<noteq> None")
  case True
  from with_filter_on_service[OF True, of ps] show ?thesis by blast
next
  case no_key: False
  let ?key = "\<lambda>d. map_of d k"
  let ?svc = "service_search ps docs"
  let ?q = "ordered_query k :: 'v query"
  let ?T = "sort_key ?key docs"
  let ?S = "take 100000 ?T"
  have svc: "?svc ?q = by_page ps ?S" by (rule service_ordered)
  from no_key have False: "docs \<noteq> []" by auto
  then have T: "?T \<noteq> []" by (metis length_sort length_0_conv)
  then have S: "?S \<noteq> []" by (cases ?T) auto
  let ?d = "last ?S"
  have resp: "?svc ?q = by_page ps ?S" "by_page ps ?S \<noteq> []" "[] \<notin> set (by_page ps ?S)"
    using S by (simp_all add: svc by_page_not_Nil by_page_no_empty_page)
  from drain_start_pages[where search = "?svc", OF resp, of "[]" "[]"]
  have step: "search_results_with_filter ?svc k =
      drain ?svc (WithFilterAt k (Some ?d) []) (by_page ps ?S) [?q]"
    by (simp add: search_results_with_filter_def last_last_by_page)
  show ?thesis
  proof (cases "?key ?d")
    case (Some v)
    from cursor_loop[OF Some, of ps docs "by_page ps ?S" "[?q]"] step
    show ?thesis by auto
  next
    case None
    then have "\<exists>sig. gen_next ?svc (WithFilterAt k (Some ?d) []) = Some (sig, []) \<and>
        (sig = StopIteration \<or> sig = Raise (KeyError k))"
      by (simp add: gen_next_simps resume_simps)
    then show ?thesis
      unfolding step by (auto simp: drain_Stop drain_Raise)
  qed
qed

section \<open>The example runs\<close>

text \<open>
  The generators and the whole run, computed on the example services.
\<close>

lemmas run_eval =
  upload_loop.simps gen_next_simps resume_simps service_search_def
  ordered_query_def filtered_query_def plain_query_def count_query_def upload_page_def Let_def
  summary_def
  create_clients_def loop_source_def loop_entry_def accept_all_def by_page.simps

lemmas drain_eval =
  search_results_with_filter_def drain.simps gen_next_simps resume_simps service_search_def
  ordered_query_def filtered_query_def by_page.simps

lemma two_key_run:
  "backup_and_restore_index two_key_env ''a'' ''b'' ''src'' ''c'' ''d'' ''tgt'' =
   Some (Inr (\<lparr>sc_endpoint = ''a'', sc_index_name = ''src'', sc_credential = ''b''\<rparr>,
              \<lparr>sc_endpoint = ''c'', sc_index_name = ''tgt'', sc_credential = ''d''\<rparr>, Exhausted),
         \<lparr>failed_documents = 0, failed_keys = [],
          target = [CreateOrUpdateIndex (two_key_index\<lparr>ix_name := ''tgt''\<rparr>),
                    UploadDocuments [[(''id'', ''2''), (''code'', ''a'')]],
                    UploadDocuments [[(''id'', ''1''), (''code'', ''b'')]]],
          stdout = [WarnNotRetrievable [''note''], BackingUp, AllUploaded,
                    SuccessfullyBackedUp ''src'' ''tgt''],
          progress_updates = [1, 1],
          queries = [count_query, ordered_query ''code'', filtered_query ''code'' ''b'']\<rparr>)"
  apply (subst run_with_key)
   apply (simp add: two_key_env_def two_key_index_def)
  apply (simp add: run_eval two_key_env_def two_key_index_def two_key_docs_def)
  done

lemma conflict_run:
  "backup_and_restore_index conflict_env ''a'' ''b'' ''src'' ''c'' ''d'' ''tgt'' =
   Some (Inr (\<lparr>sc_endpoint = ''a'', sc_index_name = ''src'', sc_credential = ''b''\<rparr>,
              \<lparr>sc_endpoint = ''c'', sc_index_name = ''tgt'', sc_credential = ''d''\<rparr>, Exhausted),
         \<lparr>failed_documents = 1, failed_keys = [''k5''],
          target = [CreateOrUpdateIndex (keyed_index\<lparr>ix_name := ''tgt''\<rparr>),
                    UploadDocuments [[(''id'', ''k4''), (''title'', ''a'')],
                                     [(''id'', ''k5''), (''title'', ''b'')]],
                    UploadDocuments [[(''id'', ''k6''), (''title'', ''c'')],
                                     [(''id'', ''k7''), (''title'', ''d'')]]],
          stdout = [BackingUp, DocumentUploadError ''conflict'', FailedDocuments 1,
                    FailedDocumentKeys [''k5''], SuccessfullyBackedUp ''src'' ''tgt''],
          progress_updates = [2, 2],
          queries = [count_query, ordered_query ''id'', filtered_query ''id'' ''k7'']\<rparr>)"
  apply (subst run_with_key)
   apply (simp add: conflict_env_def keyed_index_def)
  apply (simp add: run_eval conflict_env_def keyed_index_def conflict_docs_def reject_k5_def
      failed_key_def upload_error_message_def message_object_def)
  done

lemma sdk_conflict_run:
  "backup_and_restore_index sdk_conflict_env ''a'' ''b'' ''src'' ''c'' ''d'' ''tgt'' =
   Some (Inl (AttributeError ''index_of''),
         \<lparr>failed_documents = 1, failed_keys = [],
          target = [CreateOrUpdateIndex (keyed_index\<lparr>ix_name := ''tgt''\<rparr>),
                    UploadDocuments [[(''id'', ''k4''), (''title'', ''a'')],
                                     [(''id'', ''k5''), (''title'', ''b'')]]],
          stdout = [BackingUp], progress_updates = [2],
          queries = [count_query, ordered_query ''id'']\<rparr>)"
  apply (subst run_with_key)
   apply (simp add: sdk_conflict_env_def conflict_env_def keyed_index_def)
  apply (simp add: run_eval sdk_conflict_env_def conflict_env_def keyed_index_def
      conflict_docs_def reject_k5_def failed_key_def list_index_of_def)
  done

lemma clean_run:
  "backup_and_restore_index clean_env ''a'' ''b'' ''src'' ''c'' ''d'' ''tgt'' =
   Some (Inr (\<lparr>sc_endpoint = ''a'', sc_index_name = ''src'', sc_credential = ''b''\<rparr>,
              \<lparr>sc_endpoint = ''c'', sc_index_name = ''tgt'', sc_credential = ''d''\<rparr>, Exhausted),
         \<lparr>failed_documents = 0, failed_keys = [],
          target = [CreateOrUpdateIndex (keyed_index\<lparr>ix_name := ''tgt''\<rparr>),
                    UploadDocuments [[(''id'', ''k4''), (''title'', ''a'')],
                                     [(''id'', ''k5''), (''title'', ''b'')]],
                    UploadDocuments [[(''id'', ''k6''), (''title'', ''c'')],
                                     [(''id'', ''k7''), (''title'', ''d'')]]],
          stdout = [BackingUp, AllUploaded, SuccessfullyBackedUp ''src'' ''tgt''],
          progress_updates = [2, 2],
          queries = [count_query, ordered_query ''id'', filtered_query ''id'' ''k7'']\<rparr>)"
  apply (subst run_with_key)
   apply (simp add: clean_env_def conflict_env_def keyed_index_def)
  apply (simp add: run_eval clean_env_def conflict_env_def keyed_index_def conflict_docs_def)
  done

lemma unsortable_run:
  "backup_and_restore_index unsortable_env ''a'' ''b'' ''src'' ''c'' ''d'' ''tgt'' =
   Some (Inr (\<lparr>sc_endpoint = ''a'', sc_index_name = ''src'', sc_credential = ''b''\<rparr>,
              \<lparr>sc_endpoint = ''c'', sc_index_name = ''tgt'', sc_credential = ''d''\<rparr>, Exhausted),
         \<lparr>failed_documents = 0, failed_keys = [],
          target = [CreateOrUpdateIndex (unsortable_index\<lparr>ix_name := ''tgt''\<rparr>),
                    UploadDocuments [[(''id'', ''k1'')]], UploadDocuments [[(''id'', ''k2'')]]],
          stdout = [WarnNotFilterableOrSortable, BackingUp, AllUploaded,
                    SuccessfullyBackedUp ''src'' ''tgt''],
          progress_updates = [1, 1],
          queries = [count_query, plain_query]\<rparr>)"
  apply (subst run_with_key)
   apply (simp add: unsortable_env_def unsortable_index_def)
  apply (simp add: run_eval unsortable_env_def unsortable_index_def)
  done

lemma conflict_docs_pages:
  "search_results_with_filter (service_search 2 conflict_docs) ''id'' =
     Some ([[[(''id'', ''k4''), (''title'', ''a'')], [(''id'', ''k5''), (''title'', ''b'')]],
            [[(''id'', ''k6''), (''title'', ''c'')], [(''id'', ''k7''), (''title'', ''d'')]]],
           None, [ordered_query ''id'', filtered_query ''id'' ''k7''])"
  by (simp add: drain_eval conflict_docs_def)

lemma conflict_docs_pages_1:
  "search_results_with_filter (service_search (Suc 0) conflict_docs) ''id'' =
     Some ([[[(''id'', ''k4''), (''title'', ''a'')]], [[(''id'', ''k5''), (''title'', ''b'')]],
            [[(''id'', ''k6''), (''title'', ''c'')]], [[(''id'', ''k7''), (''title'', ''d'')]]],
           None, [ordered_query ''id'', filtered_query ''id'' ''k7''])"
  by (simp add: drain_eval conflict_docs_def)

lemma conflict_docs_pages_5:
  "search_results_with_filter (service_search 5 conflict_docs) ''id'' =
     Some ([[[(''id'', ''k4''), (''title'', ''a'')], [(''id'', ''k5''), (''title'', ''b'')],
             [(''id'', ''k6''), (''title'', ''c'')], [(''id'', ''k7''), (''title'', ''d'')]]],
           None, [ordered_query ''id'', filtered_query ''id'' ''k7''])"
  by (simp add: drain_eval conflict_docs_def)

lemma conflict_docs_pages_7:
  "search_results_with_filter (service_search 7 conflict_docs) ''id'' =
     Some ([[[(''id'', ''k4''), (''title'', ''a'')], [(''id'', ''k5''), (''title'', ''b'')],
             [(''id'', ''k6''), (''title'', ''c'')], [(''id'', ''k7''), (''title'', ''d'')]]],
           None, [ordered_query ''id'', filtered_query ''id'' ''k7''])"
  by (simp add: drain_eval conflict_docs_def)

section \<open>The claims\<close>

text \<open>
  C1. On a collection in which every document carries the key field and no two
  documents share a key value, read through the search service with any page size,
  \<^verbatim>\<open>search_results_with_filter\<close> ends without error, and the pages it yields, put end
  to end, are the documents of the collection in strictly ascending order of the key:
  each document exactly once, none skipped, and no page empty.
\<close>

theorem range_filtered_pagination_visits_each_document_once:
  fixes docs :: "('v::linorder) document list"
  assumes has_key: "\<forall>d\<in>set docs. map_of d key_field_name \<noteq> None"
    and unique: "distinct (map (\<lambda>d. map_of d key_field_name) docs)"
  shows "\<exists>pages qs.
     search_results_with_filter (service_search page_size docs) key_field_name =
       Some (pages, None, qs) \<and>
     concat pages = sort_key (\<lambda>d. map_of d key_field_name) docs \<and>
     mset (concat pages) = mset docs \<and>
     distinct (concat pages) \<and>
     sorted_wrt (<) (map (\<lambda>d. map_of d key_field_name) (concat pages)) \<and>
     [] \<notin> set pages"
proof -
  let ?key = "\<lambda>d. map_of d key_field_name"
  from with_filter_on_service[OF has_key, of page_size] unique
  obtain pages qs where run:
    "search_results_with_filter (service_search page_size docs) key_field_name =
       Some (pages, None, qs)"
    and pages: "[] \<notin> set pages" "concat pages = sort_key ?key docs"
    by blast
  from unique have d: "distinct docs" by (simp add: distinct_map)
  have "distinct (map ?key (sort_key ?key docs))"
    using unique by (simp add: distinct_map)
  then have "sorted_wrt (<) (map ?key (sort_key ?key docs))"
    by (simp add: strict_sorted_iff)
  with run pages d show ?thesis by simp
qed

theorem range_filtered_pagination_visits_each_document_once_witness:
  "distinct (map (\<lambda>d. map_of d ''id'') conflict_docs) \<and>
   \<not> (\<exists>d\<in>set conflict_docs. map_of d ''id'' = None) \<and>
   map_option (\<lambda>r. concat (fst r))
     (search_results_with_filter (service_search (Suc 0) conflict_docs) ''id'') =
     Some [[(''id'', ''k4''), (''title'', ''a'')], [(''id'', ''k5''), (''title'', ''b'')],
           [(''id'', ''k6''), (''title'', ''c'')], [(''id'', ''k7''), (''title'', ''d'')]] \<and>
   map_option (\<lambda>r. concat (fst r))
     (search_results_with_filter (service_search 7 conflict_docs) ''id'') =
     Some [[(''id'', ''k4''), (''title'', ''a'')], [(''id'', ''k5''), (''title'', ''b'')],
           [(''id'', ''k6''), (''title'', ''c'')], [(''id'', ''k7''), (''title'', ''d'')]] \<and>
   map_option (\<lambda>r. concat (fst r))
     (search_results_with_filter (service_search 5 conflict_docs) ''id'') =
     Some [[(''id'', ''k4''), (''title'', ''a'')], [(''id'', ''k5''), (''title'', ''b'')],
           [(''id'', ''k6''), (''title'', ''c'')], [(''id'', ''k7''), (''title'', ''d'')]] \<and>
   map_option (\<lambda>r. length (fst r))
     (search_results_with_filter (service_search (Suc 0) conflict_docs) ''id'') = Some 4"
proof -
  have has_key: "\<forall>d\<in>set conflict_docs. map_of d ''id'' \<noteq> None"
    by (simp add: conflict_docs_def)
  have unique: "distinct (map (\<lambda>d. map_of d ''id'') conflict_docs)"
    by (simp add: conflict_docs_def)
  from range_filtered_pagination_visits_each_document_once[OF has_key unique, of "Suc 0"]
    range_filtered_pagination_visits_each_document_once[OF has_key unique, of 7]
    range_filtered_pagination_visits_each_document_once[OF has_key unique, of 5]
    has_key unique
  show ?thesis
    by (simp add: conflict_docs_pages_1 conflict_docs_pages_7 conflict_docs_pages_5)
qed

text \<open>
  C2. On every finite collection read through the search service
  \<^verbatim>\<open>search_results_with_filter\<close> ends: it yields finitely many pages. When every
  document carries the key field it ends without error exactly at the fetch that is
  answered by an empty page: the last query it sent is the one answered by an empty
  page, and no earlier query was. On a collection that is not empty that last query
  is a filtered follow-up query, past the last key, and its answer holds no document.
\<close>

theorem range_filtered_pagination_ends_at_an_empty_page:
  fixes docs :: "('v::linorder) document list"
  shows "(\<exists>r. search_results_with_filter (service_search page_size docs) k = Some r) \<and>
         ((\<forall>d\<in>set docs. map_of d k \<noteq> None) \<longrightarrow>
            (\<exists>pages qs.
               search_results_with_filter (service_search page_size docs) k =
                 Some (pages, None, qs) \<and>
               qs \<noteq> [] \<and> service_search page_size docs (last qs) = [[]] \<and>
               (\<forall>q\<in>set (butlast qs). [] \<notin> set (service_search page_size docs q)) \<and>
               (docs \<noteq> [] \<longrightarrow> (\<exists>v. last qs = filtered_query k v))))"
proof (intro conjI impI)
  show "\<exists>r. search_results_with_filter (service_search page_size docs) k = Some r"
    by (rule with_filter_on_service_ends)
next
  let ?svc = "service_search page_size docs"
  assume "\<forall>d\<in>set docs. map_of d k \<noteq> None"
  from with_filter_on_service[OF this, of page_size]
  obtain pages qs where run: "search_results_with_filter ?svc k = Some (pages, None, qs)"
    and qs: "qs \<noteq> []" "?svc (last qs) = [[]]"
      "\<forall>q\<in>set (butlast qs). [] \<notin> set (?svc q)"
    by blast
  have "\<exists>v. last qs = filtered_query k v" if ne: "docs \<noteq> []"
  proof -
    from run have "drain ?svc (WithFilterStart k) [] [] = Some (pages, None, qs)"
      by (simp add: search_results_with_filter_def)
    from drain_queries[OF this, rule_format, of k]
    have "\<forall>q\<in>set qs. q = ordered_query k \<or> (\<exists>v. q = filtered_query k v)" by simp
    moreover from qs(1) have "last qs \<in> set qs" by simp
    ultimately have "last qs = ordered_query k \<or> (\<exists>v. last qs = filtered_query k v)"
      by blast
    moreover have "?svc (ordered_query k) \<noteq> [[]]"
    proof -
      from ne have "sort_key (\<lambda>d. map_of d k) docs \<noteq> []"
        by (metis length_sort length_0_conv)
      then have "take 100000 (sort_key (\<lambda>d. map_of d k) docs) \<noteq> []"
        by (cases "sort_key (\<lambda>d. map_of d k) docs") auto
      from by_page_no_empty_page[OF this, of page_size] show ?thesis
        by (auto simp: service_ordered)
    qed
    ultimately show ?thesis using qs(2) by auto
  qed
  with run qs
  show "\<exists>pages qs.
               search_results_with_filter ?svc k = Some (pages, None, qs) \<and>
               qs \<noteq> [] \<and> ?svc (last qs) = [[]] \<and>
               (\<forall>q\<in>set (butlast qs). [] \<notin> set (?svc q)) \<and>
               (docs \<noteq> [] \<longrightarrow> (\<exists>v. last qs = filtered_query k v))"
    by blast
qed

theorem range_filtered_pagination_ends_at_an_empty_page_witness:
  "search_results_with_filter (service_search 2 conflict_docs) ''id'' =
     Some ([[[(''id'', ''k4''), (''title'', ''a'')], [(''id'', ''k5''), (''title'', ''b'')]],
            [[(''id'', ''k6''), (''title'', ''c'')], [(''id'', ''k7''), (''title'', ''d'')]]],
           None, [ordered_query ''id'', filtered_query ''id'' ''k7'']) \<and>
   service_search 2 conflict_docs (filtered_query ''id'' ''k7'') = [[]] \<and>
   [] \<notin> set (service_search 2 conflict_docs (ordered_query ''id'')) \<and>
   search_results_with_filter (service_search 2 ([] :: string document list)) ''id'' =
     Some ([], None, [ordered_query ''id'']) \<and>
   service_search 2 ([] :: string document list) (ordered_query ''id'') = [[]]"
proof -
  have has_key: "\<forall>d\<in>set conflict_docs. map_of d ''id'' \<noteq> None"
    by (simp add: conflict_docs_def)
  have ne: "conflict_docs \<noteq> []" by (simp add: conflict_docs_def)
  have empty: "search_results_with_filter (service_search 2 ([] :: string document list)) ''id'' =
     Some ([], None, [ordered_query ''id''])"
     "service_search 2 ([] :: string document list) (ordered_query ''id'') = [[]]"
    by (simp_all add: drain_eval)
  from range_filtered_pagination_ends_at_an_empty_page[of 2 conflict_docs "''id''"]
    has_key ne
  show ?thesis by (simp add: conflict_docs_pages empty)
qed

text \<open>
  C3. The code does not do what the claim says. When the reply to an upload is a plain
  list, on which \<^verbatim>\<open>result.index_of\<close> cannot be read, and it reports a failure for
  some document of the page, the loop over the pages stops at the first failed item
  with \<^verbatim>\<open>AttributeError\<close>: the counter of failed documents was incremented, but no
  key was appended to \<^verbatim>\<open>failed_keys\<close> and no message printed, the generator is left
  suspended after that page, and the pages it would still yield are never uploaded.
\<close>

theorem failed_upload_aborts_the_run:
  assumes plain_list: "\<forall>result item. index_of env result item = None"
    and gn: "gen_next (search_pages env) g = Some (Yield page g', qs)"
    and item: "item \<in> set (upload_documents env (target s) page)" "\<not> succeeded item"
  shows "\<exists>s'. upload_loop env g s = Some (Some (AttributeError ''index_of''), s', g') \<and>
           failed_documents s' = failed_documents s + 1 \<and>
           failed_keys s' = failed_keys s \<and>
           stdout s' = stdout s \<and>
           uploaded_pages (target s') = uploaded_pages (target s) @ [page]"
proof -
  let ?s0 = "s\<lparr>queries := queries s @ qs\<rparr>"
  let ?result = "upload_documents env (target s) page"
  let ?s1 = "?s0\<lparr>target := target s @ [UploadDocuments page],
                  progress_updates := progress_updates s @ [length ?result]\<rparr>"
  let ?s' = "?s1\<lparr>failed_documents := failed_documents s + 1\<rparr>"
  from item have "\<exists>it\<in>set ?result. \<not> succeeded it" by blast
  from record_failures_no_index_of[OF plain_list this, of page ?result ?s1]
  have up: "upload_page env page ?s0 = (Some (AttributeError ''index_of''), ?s')"
    by (simp add: upload_page_def Let_def)
  show ?thesis
    by (intro exI[of _ ?s']) (simp add: upload_loop_Yield[OF gn] up)
qed

theorem failed_upload_aborts_the_run_witness:
  "(\<exists>s'. upload_loop sdk_conflict_env (WithFilterStart ''id'') (loop_entry sdk_conflict_env ''tgt'') =
           Some (Some (AttributeError ''index_of''), s',
                 WithFilterAt ''id'' (Some [(''id'', ''k5''), (''title'', ''b'')])
                   [[[(''id'', ''k6''), (''title'', ''c'')], [(''id'', ''k7''), (''title'', ''d'')]]]) \<and>
         failed_documents s' = 1 \<and> failed_keys s' = [] \<and>
         uploaded_pages (target s') =
           [[[(''id'', ''k4''), (''title'', ''a'')], [(''id'', ''k5''), (''title'', ''b'')]]]) \<and>
   backup_and_restore_index sdk_conflict_env ''a'' ''b'' ''src'' ''c'' ''d'' ''tgt'' =
     Some (Inl (AttributeError ''index_of''),
           \<lparr>failed_documents = 1, failed_keys = [],
            target = [CreateOrUpdateIndex (keyed_index\<lparr>ix_name := ''tgt''\<rparr>),
                      UploadDocuments [[(''id'', ''k4''), (''title'', ''a'')],
                                       [(''id'', ''k5''), (''title'', ''b'')]]],
            stdout = [BackingUp], progress_updates = [2],
            queries = [count_query, ordered_query ''id'']\<rparr>)"
proof -
  let ?page = "[[(''id'', ''k4''), (''title'', ''a'')], [(''id'', ''k5''), (''title'', ''b'')]]"
  let ?rest = "[[[(''id'', ''k6''), (''title'', ''c'')], [(''id'', ''k7''), (''title'', ''d'')]]]"
  let ?g' = "WithFilterAt ''id'' (Some [(''id'', ''k5''), (''title'', ''b'')]) ?rest"
  let ?s = "loop_entry sdk_conflict_env ''tgt''"
  have plain_list: "\<forall>result item. index_of sdk_conflict_env result item = None"
    by (simp add: sdk_conflict_env_def list_index_of_def)
  have gn: "gen_next (search_pages sdk_conflict_env) (WithFilterStart ''id'') =
      Some (Yield ?page ?g', [ordered_query ''id''])"
    by (simp add: gen_next_simps resume_simps sdk_conflict_env_def conflict_env_def
        service_search_def conflict_docs_def ordered_query_def by_page.simps)
  have item: "\<lparr>succeeded = False, error_message = ''conflict''\<rparr> \<in>
        set (upload_documents sdk_conflict_env (target ?s) ?page)"
    "\<not> succeeded \<lparr>succeeded = False, error_message = ''conflict''\<rparr>"
    by (simp_all add: sdk_conflict_env_def conflict_env_def reject_k5_def)
  from failed_upload_aborts_the_run[OF plain_list gn item]
  obtain s' where
    "upload_loop sdk_conflict_env (WithFilterStart ''id'') ?s =
       Some (Some (AttributeError ''index_of''), s', ?g')"
    "failed_documents s' = failed_documents ?s + 1" "failed_keys s' = failed_keys ?s"
    "uploaded_pages (target s') = uploaded_pages (target ?s) @ [?page]"
    by blast
  then show ?thesis
    by (intro conjI exI[of _ s']) (simp_all add: sdk_conflict_run)
qed

text \<open>
  C4. If no field of the source schema is marked as key, the run raises and stops
  before anything is done to the target: the state at the raise holds no call of
  \<^verbatim>\<open>create_or_update_index\<close> or \<^verbatim>\<open>upload_documents\<close>, no progress update, and no
  query was sent to the source either.
\<close>

theorem no_key_field_aborts_before_any_write:
  assumes "\<not> (\<exists>f\<in>set (ix_fields (get_index env)). key f)"
  shows "\<exists>e s. backup_and_restore_index env se sk sn te tk tn = Some (Inl e, s) \<and>
           target s = [] \<and> progress_updates s = [] \<and> queries s = []"
proof -
  from assms have "filter key (ix_fields (get_index env)) = []"
    by (simp add: filter_empty_conv)
  from run_no_key[OF this] show ?thesis by (simp add: initial_state_def)
qed

theorem no_key_field_aborts_before_any_write_witness:
  "\<not> (\<exists>f\<in>set (ix_fields (get_index no_key_env)). key f) \<and>
   (\<exists>e s. backup_and_restore_index no_key_env ''a'' ''b'' ''src'' ''c'' ''d'' ''tgt'' = Some (Inl e, s) \<and>
           target s = [] \<and> progress_updates s = [] \<and> queries s = [])"
  using no_key_field_aborts_before_any_write[of no_key_env "''a''" "''b''" "''src''" "''c''" "''d''" "''tgt''"]
  by (simp add: no_key_env_def no_key_index_def)

text \<open>
  C5, as amended. When the key field is not both filterable and sortable,
  \<^verbatim>\<open>search_results_without_filter\<close> sends exactly one query, with no filter and no
  order, and yields every page of its response, in order: as many pages as the
  response has. The run ends, has printed the truncation warning, and has sent no other
  query; when it returns, it has uploaded exactly those pages.
\<close>

theorem unfiltered_mode_is_one_unfiltered_query:
  assumes keys: "filter key (ix_fields (get_index env)) \<noteq> []"
    and cannot: "\<not> (sortable (last (filter key (ix_fields (get_index env)))) \<and>
                     filterable (last (filter key (ix_fields (get_index env)))))"
  shows "search_results_without_filter (search_pages env) =
           Some (search_pages env plain_query, None, [plain_query]) \<and>
         (\<exists>r s. backup_and_restore_index env se sk sn te tk tn = Some (r, s) \<and>
            WarnNotFilterableOrSortable \<in> set (stdout s) \<and>
            queries s = [count_query, plain_query] \<and>
            (\<forall>q\<in>set (queries s). filter_gt q = None) \<and>
            (\<forall>ret. r = Inr ret \<longrightarrow>
               uploaded_pages (target s) = search_pages env plain_query))"
proof
  show "search_results_without_filter (search_pages env) =
           Some (search_pages env plain_query, None, [plain_query])"
    by (rule search_results_without_filter_eq)
next
  from cannot have src: "loop_source env = WithoutFilterStart"
    by (auto simp: loop_source_def Let_def)
  from upload_loop_without_filter_start[of env "loop_entry env tn"] src
  obtain e s' g' where
    ul: "upload_loop env (loop_source env) (loop_entry env tn) = Some (e, s', g')"
    and q: "queries s' = [count_query, plain_query]"
    and t: "e = None \<longrightarrow> target s' =
              target (loop_entry env tn) @ map UploadDocuments (search_pages env plain_query)"
    by auto
  define r :: "error + 'a returned" where
    "r = (case e of None \<Rightarrow> Inr (fst (create_clients se sk sn), fst (create_clients te tk tn), g')
          | Some x \<Rightarrow> Inl x)"
  define s where "s = (case e of None \<Rightarrow> summary s' sn tn | Some x \<Rightarrow> s')"
  have run: "backup_and_restore_index env se sk sn te tk tn = Some (r, s)"
    unfolding run_with_key[OF keys] ul r_def s_def by (cases e) simp_all
  have "WarnNotFilterableOrSortable \<in> set (stdout s)"
    using run_stdout[OF keys run] cannot by simp
  moreover have qs: "queries s = [count_query, plain_query]"
    using q by (cases e) (simp_all add: s_def)
  moreover have "\<forall>q\<in>set (queries s). filter_gt q = None"
    unfolding qs by (simp add: plain_query_def count_query_def)
  moreover have "\<forall>ret. r = Inr ret \<longrightarrow> uploaded_pages (target s) = search_pages env plain_query"
    using t by (cases e) (simp_all add: r_def s_def)
  ultimately show "\<exists>r s. backup_and_restore_index env se sk sn te tk tn = Some (r, s) \<and>
            WarnNotFilterableOrSortable \<in> set (stdout s) \<and>
            queries s = [count_query, plain_query] \<and>
            (\<forall>q\<in>set (queries s). filter_gt q = None) \<and>
            (\<forall>ret. r = Inr ret \<longrightarrow>
               uploaded_pages (target s) = search_pages env plain_query)"
    using run by blast
qed

theorem unfiltered_mode_is_one_unfiltered_query_witness:
  "filter key (ix_fields (get_index unsortable_env)) \<noteq> [] \<and>
   \<not> (sortable (last (filter key (ix_fields (get_index unsortable_env)))) \<and>
      filterable (last (filter key (ix_fields (get_index unsortable_env))))) \<and>
   search_results_without_filter (search_pages unsortable_env) =
     Some ([[[(''id'', ''k1'')]], [[(''id'', ''k2'')]]], None, [plain_query]) \<and>
   (\<exists>r s. backup_and_restore_index unsortable_env ''a'' ''b'' ''src'' ''c'' ''d'' ''tgt'' = Some (r, s) \<and>
      WarnNotFilterableOrSortable \<in> set (stdout s) \<and>
      queries s = [count_query, plain_query] \<and>
      uploaded_pages (target s) = [[[(''id'', ''k1'')]], [[(''id'', ''k2'')]]])"
  using unfiltered_mode_is_one_unfiltered_query
    [of unsortable_env "''a''" "''b''" "''src''" "''c''" "''d''" "''tgt''"]
  by (simp add: unsortable_run)
     (simp add: unsortable_env_def unsortable_index_def service_search_def plain_query_def
        by_page.simps)

text \<open>
  C5 as stated fails: on a response of two pages the generator yields two pages, not
  exactly one.
\<close>

theorem unfiltered_mode_emits_two_pages:
  "search_results_without_filter (service_search 1 [[(''id'', ''k1'')], [(''id'', ''k2'')]]) =
     Some ([[[(''id'', ''k1'')]], [[(''id'', ''k2'')]]], None, [plain_query]) \<and>
   length [[[(''id'', ''k1'')]], [[(''id'', ''k2'')]]] = 2"
  by (simp add: search_results_without_filter_eq service_search_def plain_query_def by_page.simps)

text \<open>
  C6, as amended. \<^verbatim>\<open>verify_counts\<close> prints both counts and then
  \<^verbatim>\<open>"Document counts match."\<close> when they are equal and
  \<^verbatim>\<open>"Document counts do not match."\<close> otherwise; it returns no value
  (Python's \<^verbatim>\<open>None\<close>), for every pair of counts.
\<close>

theorem verify_counts_prints_and_returns_nothing:
  "fst (verify_counts a b :: bool option \<times> 'v printed list) = None \<and>
   snd (verify_counts a b :: bool option \<times> 'v printed list) =
     [SourceDocumentCount a, TargetDocumentCount b,
      if a = b then CountsMatch else CountsDoNotMatch]"
  by (simp add: verify_counts_def)

theorem verify_counts_prints_and_returns_nothing_witness:
  "verify_counts 7 7 = (None, [SourceDocumentCount 7, TargetDocumentCount 7, CountsMatch :: string printed])"
  using verify_counts_prints_and_returns_nothing[of 7 7, where 'v = string]
  by (simp add: prod_eq_iff)

text \<open>
  C6 as stated fails: on the counts 120 and 115 the function prints the mismatch and
  returns \<^verbatim>\<open>None\<close>, not the boolean false.
\<close>

theorem verify_counts_returns_no_boolean:
  "fst (verify_counts 120 115 :: bool option \<times> string printed list) \<noteq> Some False \<and>
   verify_counts 120 115 =
     (None, [SourceDocumentCount 120, TargetDocumentCount 115, CountsDoNotMatch :: string printed])"
  by (simp add: verify_counts_def)

text \<open>
  C7, as amended. A run that returns, returns the source search client, the target
  search client and the exhausted page generator. The number of failed documents and
  their keys are printed at the end (or the line that all documents were uploaded), not
  returned.
\<close>

theorem run_returns_the_clients_and_the_generator:
  assumes run: "backup_and_restore_index env se sk sn te tk tn = Some (Inr ret, s)"
  shows "ret = (fst (create_clients se sk sn), fst (create_clients te tk tn), Exhausted) \<and>
         (\<exists>before. stdout s =
            before @
            (if failed_documents s > 0
             then [FailedDocuments (failed_documents s), FailedDocumentKeys (failed_keys s)]
             else [AllUploaded]) @
            [SuccessfullyBackedUp sn tn])"
proof -
  have keys: "filter key (ix_fields (get_index env)) \<noteq> []"
  proof
    assume "filter key (ix_fields (get_index env)) = []"
    from run_no_key[OF this] run show False by simp
  qed
  from run_finished[OF keys run] obtain s' g' where
    ul: "upload_loop env (loop_source env) (loop_entry env tn) = Some (None, s', g')"
    and ret: "ret = (fst (create_clients se sk sn), fst (create_clients te tk tn), g')"
    and s: "s = summary s' sn tn"
    by (auto split: option.splits)
  from upload_loop_effects[OF ul] have "g' = Exhausted" by (auto simp: loop_effects_def)
  with ret s show ?thesis by (auto simp: summary_stdout)
qed

theorem run_returns_the_clients_and_the_generator_witness:
  "\<exists>s. backup_and_restore_index conflict_env ''a'' ''b'' ''src'' ''c'' ''d'' ''tgt'' =
     Some (Inr (fst (create_clients ''a'' ''b'' ''src''), fst (create_clients ''c'' ''d'' ''tgt''),
                Exhausted), s) \<and>
     stdout s = [BackingUp, DocumentUploadError ''conflict''] @
                [FailedDocuments 1, FailedDocumentKeys [''k5'']] @
                [SuccessfullyBackedUp ''src'' ''tgt'']"
  using run_returns_the_clients_and_the_generator[OF conflict_run]
  by (simp add: conflict_run create_clients_def)

text \<open>
  C7 as stated fails: the run in which \<^verbatim>\<open>k5\<close> fails and the run in which nothing
  fails return the same value, so the value returned holds no failure list.
\<close>

theorem returned_value_carries_no_report:
  "map_option fst (backup_and_restore_index conflict_env ''a'' ''b'' ''src'' ''c'' ''d'' ''tgt'') =
   map_option fst (backup_and_restore_index clean_env ''a'' ''b'' ''src'' ''c'' ''d'' ''tgt'') \<and>
   map_option (failed_keys \<circ> snd)
     (backup_and_restore_index conflict_env ''a'' ''b'' ''src'' ''c'' ''d'' ''tgt'') = Some [''k5''] \<and>
   map_option (failed_keys \<circ> snd)
     (backup_and_restore_index clean_env ''a'' ''b'' ''src'' ''c'' ''d'' ''tgt'') = Some [] \<and>
   map_option fst (backup_and_restore_index conflict_env ''a'' ''b'' ''src'' ''c'' ''d'' ''tgt'') =
   Some (Inr (\<lparr>sc_endpoint = ''a'', sc_index_name = ''src'', sc_credential = ''b''\<rparr>,
              \<lparr>sc_endpoint = ''c'', sc_index_name = ''tgt'', sc_credential = ''d''\<rparr>, Exhausted))"
  by (simp add: conflict_run clean_run)

text \<open>
  C8. When the target answers an upload with one result for each document, every
  page advances the progress bar by the number of documents of the page, whatever the
  results say (the update comes before the results are looked at). At the end of a
  run the updates are the lengths of the pages uploaded, in order: the counter grows
  with every page that is not empty and never decreases.
\<close>

theorem progress_counter_follows_submitted_documents:
  assumes contract: "\<forall>h p. length (upload_documents env h p) = length p"
  shows "(\<forall>page s r s'. upload_page env page s = (r, s') \<longrightarrow>
            progress_updates s' = progress_updates s @ [length page]) \<and>
         (\<forall>r s. backup_and_restore_index env se sk sn te tk tn = Some (r, s) \<longrightarrow>
            progress_updates s = map length (uploaded_pages (target s)) \<and>
            (\<forall>n<length (uploaded_pages (target s)).
               progress_counter (progress_updates s) (Suc n) =
               progress_counter (progress_updates s) n + length (uploaded_pages (target s) ! n)) \<and>
            (\<forall>n<length (uploaded_pages (target s)).
               uploaded_pages (target s) ! n \<noteq> [] \<longrightarrow>
               progress_counter (progress_updates s) n <
               progress_counter (progress_updates s) (Suc n)) \<and>
            (\<forall>m n. m \<le> n \<longrightarrow>
               progress_counter (progress_updates s) m \<le> progress_counter (progress_updates s) n))"
proof (intro conjI allI impI)
  fix page s r s' assume "upload_page env page s = (r, s')"
  from upload_page_effects(3)[OF this] contract
  show "progress_updates s' = progress_updates s @ [length page]" by simp
next
  fix r s assume run: "backup_and_restore_index env se sk sn te tk tn = Some (r, s)"
  show ups: "progress_updates s = map length (uploaded_pages (target s))"
    by (rule run_progress[OF contract run])
  show step: "progress_counter (progress_updates s) (Suc n) =
        progress_counter (progress_updates s) n + length (uploaded_pages (target s) ! n)"
    if "n < length (uploaded_pages (target s))" for n
    using that progress_counter_Suc[of n "progress_updates s"] by (simp add: ups)
  show "progress_counter (progress_updates s) n < progress_counter (progress_updates s) (Suc n)"
    if "n < length (uploaded_pages (target s))" "uploaded_pages (target s) ! n \<noteq> []" for n
    using that step[of n] by simp
  show "progress_counter (progress_updates s) m \<le> progress_counter (progress_updates s) n"
    if "m \<le> n" for m n
    using that by (rule progress_counter_mono)
qed

theorem progress_counter_follows_submitted_documents_witness:
  "\<exists>s. map_option snd (backup_and_restore_index conflict_env ''a'' ''b'' ''src'' ''c'' ''d'' ''tgt'') =
        Some s \<and>
      failed_documents s = 1 \<and>
      progress_updates s = [2, 2] \<and>
      map length (uploaded_pages (target s)) = [2, 2] \<and>
      progress_counter (progress_updates s) 1 = 2 \<and>
      progress_counter (progress_updates s) 2 = 4"
proof -
  have contract: "\<forall>h p. length (upload_documents conflict_env h p) = length p"
    by (simp add: conflict_env_def reject_k5_def)
  from progress_counter_follows_submitted_documents
    [OF contract, of "''a''" "''b''" "''src''" "''c''" "''d''" "''tgt''"]
  show ?thesis by (simp add: conflict_run progress_counter_def)
qed

text \<open>
  C9. With no key field in the schema, the guard \<^verbatim>\<open>if not key_field\<close> reads a local
  that was never assigned: the run ends in \<^verbatim>\<open>UnboundLocalError\<close> with the target
  untouched. And no schema at all makes the run end in the exception
  \<^verbatim>\<open>"Key Field Not Found"\<close>: that raise is dead code.
\<close>

theorem key_guard_reads_unbound_variable:
  "(filter key (ix_fields (get_index env)) = [] \<longrightarrow>
      backup_and_restore_index env se sk sn te tk tn =
        Some (Inl (UnboundLocalError ''key_field''), initial_state) \<and>
      target (initial_state :: 'v state) = []) \<and>
   (\<forall>s. backup_and_restore_index (env :: 'v env) se sk sn te tk tn \<noteq> Some (Inl KeyFieldNotFound, s))"
proof (intro conjI impI allI)
  assume "filter key (ix_fields (get_index env)) = []"
  then show "backup_and_restore_index env se sk sn te tk tn =
        Some (Inl (UnboundLocalError ''key_field''), initial_state)"
    by (rule run_no_key)
next
  show "target (initial_state :: 'v state) = []" by (simp add: initial_state_def)
next
  fix s
  show "backup_and_restore_index env se sk sn te tk tn \<noteq> Some (Inl KeyFieldNotFound, s)"
  proof (cases "filter key (ix_fields (get_index env)) = []")
    case True
    then show ?thesis by (simp add: run_no_key)
  next
    case False
    show ?thesis
    proof
      assume run: "backup_and_restore_index env se sk sn te tk tn = Some (Inl KeyFieldNotFound, s)"
      from run_finished[OF False run] obtain e s' g' where
        ul: "upload_loop env (loop_source env) (loop_entry env tn) = Some (e, s', g')"
        and e: "e = Some KeyFieldNotFound"
        by (auto split: option.splits)
      from e
      have "e = Some KeyFieldNotFound" .
      with upload_loop_effects[OF ul] show False by (auto simp: loop_effects_def)
    qed
  qed
qed

theorem key_guard_reads_unbound_variable_witness:
  "filter key (ix_fields (get_index no_key_env)) = [] \<and>
   backup_and_restore_index no_key_env ''a'' ''b'' ''src'' ''c'' ''d'' ''tgt'' =
        Some (Inl (UnboundLocalError ''key_field''), initial_state) \<and>
   backup_and_restore_index no_key_env ''a'' ''b'' ''src'' ''c'' ''d'' ''tgt'' \<noteq>
        Some (Inl KeyFieldNotFound, initial_state)"
  using key_guard_reads_unbound_variable[of no_key_env "''a''" "''b''" "''src''" "''c''" "''d''" "''tgt''"]
  by (simp add: no_key_env_def no_key_index_def)

text \<open>
  C10. When the schema marks one field or several as key, the run does not stop at the
  key-field guard: the scan leaves \<^verbatim>\<open>key_field\<close> bound to the last key-marked field
  in schema order, and a run that ends has used that field for the capability check
  (the warning is printed exactly when it is not both sortable and filterable) and
  for the pagination (the first query orders by its name, every later query filters on
  it; without the capability the only query is the plain one).
\<close>

theorem last_key_field_is_the_key_field:
  assumes "filter key (ix_fields (get_index env)) \<noteq> []"
  shows "snd (scan_fields (ix_fields (get_index env)) [] None) =
           Some (last (filter key (ix_fields (get_index env)))) \<and>
         (\<forall>r s. backup_and_restore_index env se sk sn te tk tn = Some (r, s) \<longrightarrow>
            r \<noteq> Inl (UnboundLocalError ''key_field'') \<and> r \<noteq> Inl KeyFieldNotFound \<and>
            (WarnNotFilterableOrSortable \<in> set (stdout s) \<longleftrightarrow>
               \<not> (sortable (last (filter key (ix_fields (get_index env)))) \<and>
                  filterable (last (filter key (ix_fields (get_index env)))))) \<and>
            (if sortable (last (filter key (ix_fields (get_index env)))) \<and>
                filterable (last (filter key (ix_fields (get_index env))))
             then \<exists>qs. queries s =
                    count_query #
                    ordered_query (field_name (last (filter key (ix_fields (get_index env))))) #
                    qs \<and>
                  (\<forall>q\<in>set qs.
                     q = ordered_query (field_name (last (filter key (ix_fields (get_index env))))) \<or>
                     (\<exists>v. q = filtered_query
                                (field_name (last (filter key (ix_fields (get_index env))))) v))
             else queries s = [count_query, plain_query]))"
proof (intro conjI allI impI)
  show "snd (scan_fields (ix_fields (get_index env)) [] None) =
           Some (last (filter key (ix_fields (get_index env))))"
    using assms by (simp add: scan_fields_eq)
next
  fix r s assume run: "backup_and_restore_index env se sk sn te tk tn = Some (r, s)"
  show "r \<noteq> Inl (UnboundLocalError ''key_field'')"
    using run_errors[OF assms, of se sk sn te tk tn _ s] run by auto
  show "r \<noteq> Inl KeyFieldNotFound"
    using run_errors[OF assms, of se sk sn te tk tn _ s] run by auto
  show "WarnNotFilterableOrSortable \<in> set (stdout s) \<longleftrightarrow>
               \<not> (sortable (last (filter key (ix_fields (get_index env)))) \<and>
                  filterable (last (filter key (ix_fields (get_index env)))))"
    by (rule run_stdout[OF assms run])
  show "if sortable (last (filter key (ix_fields (get_index env)))) \<and>
                filterable (last (filter key (ix_fields (get_index env))))
             then \<exists>qs. queries s =
                    count_query #
                    ordered_query (field_name (last (filter key (ix_fields (get_index env))))) #
                    qs \<and>
                  (\<forall>q\<in>set qs.
                     q = ordered_query (field_name (last (filter key (ix_fields (get_index env))))) \<or>
                     (\<exists>v. q = filtered_query
                                (field_name (last (filter key (ix_fields (get_index env))))) v))
             else queries s = [count_query, plain_query]"
    by (rule run_queries[OF assms run])
qed

theorem last_key_field_is_the_key_field_witness:
  "filter key (ix_fields (get_index two_key_env)) \<noteq> [] \<and>
   length (filter key (ix_fields (get_index two_key_env))) = 2 \<and>
   field_name (last (filter key (ix_fields (get_index two_key_env)))) = ''code'' \<and>
   map_option field_name (snd (scan_fields (ix_fields (get_index two_key_env)) [] None)) = Some ''code'' \<and>
   (\<exists>r s. backup_and_restore_index two_key_env ''a'' ''b'' ''src'' ''c'' ''d'' ''tgt'' = Some (Inr r, s) \<and>
      WarnNotFilterableOrSortable \<notin> set (stdout s) \<and>
      queries s = [count_query, ordered_query ''code'', filtered_query ''code'' ''b''])"
  using last_key_field_is_the_key_field[of two_key_env "''a''" "''b''" "''src''" "''c''" "''d''" "''tgt''"]
  by (simp add: two_key_run) (simp add: two_key_env_def two_key_index_def)

end
